theory Spec2Isabelle
  imports Main "HOL-Library.Multiset"
begin

section \<open>Data model\<close>

text \<open>
  The repository is one JavaScript class, \<open>MaxHeap\<close> (file \<open>src/data_structures/heap.js\<close>):
  a bounded priority queue kept in a 1-indexed array, and a heapsort built on it.

  A cell of the backing array holds one of three things: nothing at all (a read past the
  end of a JavaScript array gives \<open>undefined\<close>), the value \<open>null\<close> (the sentinel of
  index 0 and every cell that \<open>removeMax\<close> clears), or a record
  \<open>{priority, element}\<close>. A priority is a number or \<open>undefined\<close> (the placeholder
  records of a freshly allocated heap, modelled as \<open>None\<close>). The heap only compares
  priorities, so a number is either an integer value \<open>Num x\<close>, ordered as the integers are,
  or \<open>NaN\<close>, which \<open>insert\<close> accepts like any other number and which compares false
  with everything. An element is any value; \<open>None\<close> stands for the JavaScript value
  \<open>undefined\<close>.

  Reading \<open>.priority\<close> or \<open>.element\<close> of \<open>null\<close> or \<open>undefined\<close> raises a
  \<open>TypeError\<close> in JavaScript; \<open>insert\<close> throws \<open>Error("Heap is already full")\<close>. Both
  are values of \<open>error\<close>. A method mutates the object it is called on, so a failing call
  returns the error together with the state the object is left in.
\<close>

datatype error = HeapFull | TypeError

datatype number = NaN | Num int

datatype 'e slot = Undefined | Null | Rec "number option" "'e option"

record 'e heap =
  storage :: "'e slot list"
  size_h :: nat
  count_h :: nat

type_synonym ('e, 'a) result = "(error \<times> 'e heap) + 'a"

subsection \<open>Array cells and priority comparison\<close>

text \<open>
  \<open>get\<close> is the array read \<open>this._storage[i]\<close>, \<open>put\<close> the array write
  \<open>this._storage[i] = v\<close> (a write past the end extends a JavaScript array, the cells in
  between reading as \<open>undefined\<close>). \<open>js_less\<close> is the operator \<open><\<close> on priorities and
  \<open>num_le\<close> the operator \<open><=\<close> on numbers: a comparison with \<open>undefined\<close> or with NaN
  is false. \<open>less_at h i j\<close> is the expression
  \<open>this._storage[i].priority < this._storage[j].priority\<close> and \<open>greater_at h i j\<close> the same
  with \<open>>\<close>; each fails when one of the two cells is not a record.
\<close>

definition get :: "'e slot list \<Rightarrow> nat \<Rightarrow> 'e slot" where
  "get xs i = (if i < length xs then xs ! i else Undefined)"

definition put :: "'e slot list \<Rightarrow> nat \<Rightarrow> 'e slot \<Rightarrow> 'e slot list" where
  "put xs i v =
     (if i < length xs then xs[i := v]
      else xs @ replicate (i - length xs) Undefined @ [v])"

definition num_le :: "number \<Rightarrow> number \<Rightarrow> bool" where
  "num_le a b =
     (case a of
        NaN \<Rightarrow> False
      | Num x \<Rightarrow> (case b of NaN \<Rightarrow> False | Num y \<Rightarrow> x \<le> y))"

definition js_less :: "number option \<Rightarrow> number option \<Rightarrow> bool" where
  "js_less a b =
     (case a of
        None \<Rightarrow> False
      | Some NaN \<Rightarrow> False
      | Some (Num x) \<Rightarrow> (case b of
                          None \<Rightarrow> False
                        | Some NaN \<Rightarrow> False
                        | Some (Num y) \<Rightarrow> x < y))"

definition priority_at :: "'e heap \<Rightarrow> nat \<Rightarrow> ('e, number option) result" where
  "priority_at h i =
     (case get (storage h) i of Rec p e \<Rightarrow> Inr p | Undefined \<Rightarrow> Inl (TypeError, h) | Null \<Rightarrow> Inl (TypeError, h))"

definition element_at :: "'e heap \<Rightarrow> nat \<Rightarrow> ('e, 'e option) result" where
  "element_at h i =
     (case get (storage h) i of Rec p e \<Rightarrow> Inr e | Undefined \<Rightarrow> Inl (TypeError, h) | Null \<Rightarrow> Inl (TypeError, h))"

definition less_at :: "'e heap \<Rightarrow> nat \<Rightarrow> nat \<Rightarrow> ('e, bool) result" where
  "less_at h i j =
     (case priority_at h i of Inl e \<Rightarrow> Inl e
      | Inr a \<Rightarrow> (case priority_at h j of Inl e \<Rightarrow> Inl e
                  | Inr b \<Rightarrow> Inr (js_less a b)))"

definition greater_at :: "'e heap \<Rightarrow> nat \<Rightarrow> nat \<Rightarrow> ('e, bool) result" where
  "greater_at h i j =
     (case priority_at h i of Inl e \<Rightarrow> Inl e
      | Inr a \<Rightarrow> (case priority_at h j of Inl e \<Rightarrow> Inl e
                  | Inr b \<Rightarrow> Inr (js_less b a)))"

subsection \<open>Index arithmetic, swap, float and sink\<close>

text \<open>
  \<open>_left\<close>, \<open>_right\<close>, \<open>_parent\<close> and \<open>_swap\<close> as in the source. \<open>_sink\<close> and \<open>_float\<close>
  are \<open>while\<close> loops whose body calls the routine itself on the child (or the parent) and
  then tests the loop condition again at the same index: the next iteration is the outer
  recursive call below. \<open>sink_cond\<close> is the loop condition of \<open>_sink\<close>, with the
  short-circuit evaluation of \<open>&&\<close> and \<open>||\<close>. In the body of \<open>_sink\<close> the left child
  is tested first and taken whenever its priority is strictly greater than the node's.
\<close>

definition left :: "nat \<Rightarrow> nat" where
  "left i = 2 * i"

definition right :: "nat \<Rightarrow> nat" where
  "right i = 2 * i + 1"

definition parent :: "nat \<Rightarrow> nat" where
  "parent i = i div 2"

definition swap :: "'e heap \<Rightarrow> nat \<Rightarrow> nat \<Rightarrow> 'e heap" where
  "swap h i j =
     (let temp = get (storage h) i;
          st1 = put (storage h) i (get (storage h) j)
      in h\<lparr>storage := put st1 j temp\<rparr>)"

definition sink_cond :: "'e heap \<Rightarrow> nat \<Rightarrow> ('e, bool) result" where
  "sink_cond h i =
     (case (if left i \<le> count_h h then less_at h i (left i) else Inr False) of
        Inl e \<Rightarrow> Inl e
      | Inr l \<Rightarrow> if l then Inr True
                 else if right i \<le> count_h h then less_at h i (right i) else Inr False)"

function sink :: "'e heap \<Rightarrow> nat \<Rightarrow> ('e, 'e heap) result" where
  "sink h i =
     (case sink_cond h i of
        Inl e \<Rightarrow> Inl e
      | Inr c \<Rightarrow>
          if \<not> c then Inr h
          else (case less_at h i (left i) of
                  Inl e \<Rightarrow> Inl e
                | Inr l \<Rightarrow>
                    if l then (case sink (swap h i (left i)) (left i) of
                                 Inl e \<Rightarrow> Inl e
                               | Inr h1 \<Rightarrow> sink h1 i)
                    else (case less_at h i (right i) of
                            Inl e \<Rightarrow> Inl e
                          | Inr r \<Rightarrow>
                              if r then (case sink (swap h i (right i)) (right i) of
                                           Inl e \<Rightarrow> Inl e
                                         | Inr h1 \<Rightarrow> sink h1 i)
                              else Inr h)))"
  by pat_completeness auto

function float :: "'e heap \<Rightarrow> nat \<Rightarrow> ('e, 'e heap) result" where
  "float h i =
     (if parent i \<noteq> 0 then
        (case greater_at h i (parent i) of
           Inl e \<Rightarrow> Inl e
         | Inr g \<Rightarrow>
             if g then (case float (swap h i (parent i)) (parent i) of
                          Inl e \<Rightarrow> Inl e
                        | Inr h1 \<Rightarrow> float h1 i)
             else Inr h)
      else Inr h)"
  by pat_completeness auto

subsection \<open>Construction, queue operations and heapsort\<close>

text \<open>
  \<open>_buildheap\<close> is the loop \<open>for (let i = 1; i <= this.size; i += 1) this._sink(i)\<close>;
  \<open>buildheap_from h i\<close> is that loop from index \<open>i\<close> on.

  The constructor has two branches. Without \<open>fromArray\<close> it allocates \<open>[null]\<close> followed by
  \<open>size\<close> placeholder records \<open>{priority: undefined, element: undefined}\<close>. With
  \<open>fromArray\<close> it adopts the given array as storage, sets \<open>size\<close> and \<open>_count\<close> to
  \<open>fromArray.length - 1\<close> and calls \<open>_buildheap\<close>. A 1-indexed array has a cell 0, so
  \<open>MaxHeap_fromArray\<close> is defined on non-empty lists only (for the empty JavaScript array
  the source computes a size of -1, which a natural number does not represent).

  \<open>removeMax\<close> returns the element of the root record, or \<open>undefined\<close> when the queue is
  empty; \<open>sort_h\<close> returns the storage array; \<open>heapsort\<close> builds a heap on the array and
  sorts it, and its result here is the array as the call leaves it.
\<close>

function buildheap_from :: "'e heap \<Rightarrow> nat \<Rightarrow> ('e, 'e heap) result" where
  "buildheap_from h i =
     (if i \<le> size_h h then
        (case sink h i of
           Inl e \<Rightarrow> Inl e
         | Inr h1 \<Rightarrow> buildheap_from h1 (i + 1))
      else Inr h)"
  by pat_completeness auto

definition buildheap :: "'e heap \<Rightarrow> ('e, 'e heap) result" where
  "buildheap h = buildheap_from h 1"

definition DEFAULT_SIZE :: nat where
  "DEFAULT_SIZE = 1023"

definition MaxHeap_empty :: "nat \<Rightarrow> 'e heap" where
  "MaxHeap_empty sz =
     \<lparr>storage = Null # replicate sz (Rec None None), size_h = sz, count_h = 0\<rparr>"

fun MaxHeap_fromArray :: "'e slot list \<Rightarrow> ('e, 'e heap) result" where
  "MaxHeap_fromArray (s0 # rest) =
     buildheap \<lparr>storage = s0 # rest, size_h = length rest, count_h = length rest\<rparr>"

definition insert_h :: "'e heap \<Rightarrow> number \<Rightarrow> 'e option \<Rightarrow> ('e, 'e heap) result" where
  "insert_h h priority element =
     (if count_h h < size_h h then
        (let h1 = h\<lparr>count_h := count_h h + 1\<rparr>;
             h2 = h1\<lparr>storage := put (storage h1) (count_h h1) (Rec (Some priority) element)\<rparr>
         in float h2 (count_h h2))
      else Inl (HeapFull, h))"

definition removeMax :: "'e heap \<Rightarrow> ('e, 'e option \<times> 'e heap) result" where
  "removeMax h =
     (if count_h h = 0 then Inr (None, h)
      else if count_h h = 1 then
        (let h1 = h\<lparr>count_h := count_h h - 1\<rparr>
         in case element_at h1 1 of
              Inl e \<Rightarrow> Inl e
            | Inr element \<Rightarrow> Inr (element, h1\<lparr>storage := put (storage h1) 1 Null\<rparr>))
      else
        (let h1 = swap h 1 (count_h h)
         in case element_at h1 (count_h h1) of
              Inl e \<Rightarrow> Inl e
            | Inr element \<Rightarrow>
                (let h2 = h1\<lparr>storage := put (storage h1) (count_h h1) Null\<rparr>;
                     h3 = h2\<lparr>count_h := count_h h2 - 1\<rparr>
                 in case sink h3 1 of
                      Inl e \<Rightarrow> Inl e
                    | Inr h4 \<Rightarrow> Inr (element, h4))))"

definition count_of :: "'e heap \<Rightarrow> nat" where
  "count_of h = count_h h"

function sort_h :: "'e heap \<Rightarrow> ('e, 'e slot list \<times> 'e heap) result" where
  "sort_h h =
     (if count_h h > 0 then
        (let h1 = swap h 1 (count_h h);
             h2 = h1\<lparr>count_h := count_h h1 - 1\<rparr>
         in case sink h2 1 of
              Inl e \<Rightarrow> Inl e
            | Inr h3 \<Rightarrow> sort_h h3)
      else Inr (storage h, h))"
  by pat_completeness auto

definition heapsort :: "'e slot list \<Rightarrow> ('e, 'e slot list) result" where
  "heapsort array =
     (case MaxHeap_fromArray array of
        Inl e \<Rightarrow> Inl e
      | Inr heap \<Rightarrow> (case sort_h heap of
                       Inl e \<Rightarrow> Inl e
                     | Inr (sorted_storage, heap') \<Rightarrow> Inr (storage heap')))"

subsection \<open>Sequences of operations\<close>

text \<open>
  A client program is a list of calls. \<open>run\<close> performs them in order and stops at the first
  exception. \<open>never_full n c ops\<close> says that, starting from \<open>n\<close> records in a heap of
  capacity \<open>c\<close>, no \<open>insert\<close> of \<open>ops\<close> is attempted on a full heap. \<open>insert_all\<close> inserts
  a list of (priority, element) pairs, \<open>drain n\<close> calls \<open>removeMax\<close> \<open>n\<close> times and collects
  what it returns. \<open>NaN_free ops\<close>: no \<open>insert\<close> of \<open>ops\<close> has the priority NaN.
  \<open>mk_rec\<close> builds the record of a pair, \<open>num_pair\<close> turns an integer priority into a
  number and \<open>int_of\<close> reads it back, \<open>array_of\<close> is a 1-indexed array of records whose
  elements are their priorities.
\<close>

datatype 'e op = Insert number "'e option" | RemoveMax | Count | Sort

fun apply_op :: "'e heap \<Rightarrow> 'e op \<Rightarrow> ('e, 'e heap) result" where
  "apply_op h (Insert priority element) = insert_h h priority element"
| "apply_op h RemoveMax = (case removeMax h of Inl e \<Rightarrow> Inl e | Inr (x, h') \<Rightarrow> Inr h')"
| "apply_op h Count = Inr h"
| "apply_op h Sort = (case sort_h h of Inl e \<Rightarrow> Inl e | Inr (st, h') \<Rightarrow> Inr h')"

fun run :: "'e heap \<Rightarrow> 'e op list \<Rightarrow> ('e, 'e heap) result" where
  "run h [] = Inr h"
| "run h (x # xs) = (case apply_op h x of Inl e \<Rightarrow> Inl e | Inr h' \<Rightarrow> run h' xs)"

fun never_full :: "nat \<Rightarrow> nat \<Rightarrow> 'e op list \<Rightarrow> bool" where
  "never_full n c [] = True"
| "never_full n c (Insert priority element # xs) = (n < c \<and> never_full (n + 1) c xs)"
| "never_full n c (RemoveMax # xs) = never_full (n - 1) c xs"
| "never_full n c (Count # xs) = never_full n c xs"
| "never_full n c (Sort # xs) = never_full 0 c xs"

fun NaN_free :: "'e op list \<Rightarrow> bool" where
  "NaN_free [] = True"
| "NaN_free (Insert priority element # xs) = (priority \<noteq> NaN \<and> NaN_free xs)"
| "NaN_free (RemoveMax # xs) = NaN_free xs"
| "NaN_free (Count # xs) = NaN_free xs"
| "NaN_free (Sort # xs) = NaN_free xs"

fun insert_all :: "'e heap \<Rightarrow> (number \<times> 'e option) list \<Rightarrow> ('e, 'e heap) result" where
  "insert_all h [] = Inr h"
| "insert_all h (r # rs) =
     (case insert_h h (fst r) (snd r) of Inl e \<Rightarrow> Inl e | Inr h' \<Rightarrow> insert_all h' rs)"

fun drain :: "nat \<Rightarrow> 'e heap \<Rightarrow> ('e, 'e option list \<times> 'e heap) result" where
  "drain 0 h = Inr ([], h)"
| "drain (Suc n) h =
     (case removeMax h of
        Inl e \<Rightarrow> Inl e
      | Inr (x, h1) \<Rightarrow> (case drain n h1 of
                          Inl e \<Rightarrow> Inl e
                        | Inr (xs, h2) \<Rightarrow> Inr (x # xs, h2)))"

definition mk_rec :: "number \<times> 'e option \<Rightarrow> 'e slot" where
  "mk_rec r = Rec (Some (fst r)) (snd r)"

definition int_of :: "number \<Rightarrow> int" where
  "int_of a = (case a of NaN \<Rightarrow> 0 | Num x \<Rightarrow> x)"

definition num_pair :: "int \<times> 'e option \<Rightarrow> number \<times> 'e option" where
  "num_pair r = (Num (fst r), snd r)"

definition array_of :: "int list \<Rightarrow> int slot list" where
  "array_of ps = Null # map (\<lambda>p. Rec (Some (Num p)) (Some p)) ps"

definition scenario :: "(number \<times> string option) list" where
  "scenario =
     [(Num 5, Some ''a''), (Num 1, Some ''b''), (Num 9, Some ''c''), (Num 3, Some ''d'')]"

definition nan_scenario :: "(number \<times> string option) list" where
  "nan_scenario =
     [(Num 9, Some ''a''), (NaN, Some ''n''), (Num 5, Some ''b''), (Num 100, Some ''c'')]"

definition example_heap :: "int heap" where
  "example_heap = \<lparr>storage = array_of [1, 2, 3, 9, 4], size_h = 5, count_h = 5\<rparr>"

section \<open>Specification vocabulary\<close>

text \<open>
  \<open>numeric\<close> cells are records with a numeric priority; \<open>entry\<close> reads such a record as a
  pair and \<open>key h i\<close> is the priority at index \<open>i\<close>. A heap is \<open>well_formed\<close> when its
  storage has \<open>size + 1\<close> cells, \<open>count \<le> size\<close>, and the cells \<open>1..count\<close> are numeric
  records. \<open>heap_order\<close> is the heap-order invariant, \<open>live\<close> the multiset of records in
  the cells \<open>1..count\<close>.

  \<open>child_greater h i c\<close>: the child \<open>c\<close> is in range and has a strictly greater priority
  than node \<open>i\<close>. \<open>sink_choice\<close> is the child that one iteration of \<open>_sink\<close> swaps with,
  \<open>float_moves\<close> the loop condition of \<open>_float\<close>. \<open>heap_except B h\<close> is heap order on every
  parent-child pair whose parent is not in \<open>B\<close>; \<open>heap_but i h\<close> is heap order except
  between \<open>i\<close> and its parent, where the children of \<open>i\<close> are bounded by its parent instead.

  \<open>climb h k i\<close> follows the words of the specification for float-up: a record of priority
  \<open>k\<close> at index \<open>i\<close> moves to its parent while the parent exists and is strictly smaller,
  and stays at the first index where that fails. \<open>blocked h b i\<close>: \<open>b\<close> is a proper ancestor
  of \<open>i\<close> and no cell on the path from \<open>i\<close> up to \<open>b\<close> has a priority above the one at \<open>b\<close>.

  \<open>slot_less\<close> is \<open>js_less\<close> on cells; \<open>above_count\<close> and \<open>below_count\<close> count the cells
  strictly above and strictly below the cell at an index, and serve as termination measures.

  \<open>shaped\<close> is well-formedness without the condition on priorities: the cells
  \<open>1..count\<close> hold records (\<open>is_rec\<close>). \<open>cell_less h i j\<close> is the comparison
  \<open>storage[i].priority < storage[j].priority\<close> of two records, \<open>child_above\<close>,
  \<open>sink_pick\<close> and \<open>float_goes\<close> are \<open>child_greater\<close>, \<open>sink_choice\<close> and
  \<open>float_moves\<close> stated with it, so that they also speak of records whose priority is NaN.
\<close>

definition numeric :: "'e slot \<Rightarrow> bool" where
  "numeric s =
     (case s of
        Rec p e \<Rightarrow> (case p of None \<Rightarrow> False | Some NaN \<Rightarrow> False | Some (Num x) \<Rightarrow> True)
      | Undefined \<Rightarrow> False
      | Null \<Rightarrow> False)"

definition entry :: "'e slot \<Rightarrow> int \<times> 'e option" where
  "entry s =
     (case s of
        Rec p e \<Rightarrow> (case p of None \<Rightarrow> (0, e) | Some NaN \<Rightarrow> (0, e) | Some (Num x) \<Rightarrow> (x, e))
      | Undefined \<Rightarrow> (0, None)
      | Null \<Rightarrow> (0, None))"

definition key :: "'e heap \<Rightarrow> nat \<Rightarrow> int" where
  "key h i = fst (entry (get (storage h) i))"

definition well_formed :: "'e heap \<Rightarrow> bool" where
  "well_formed h \<longleftrightarrow>
     length (storage h) = size_h h + 1 \<and> count_h h \<le> size_h h \<and>
     (\<forall>i \<in> {1..count_h h}. numeric (get (storage h) i))"

definition slot_ge :: "'e slot \<Rightarrow> 'e slot \<Rightarrow> bool" where
  "slot_ge a b \<longleftrightarrow> numeric a \<and> numeric b \<and> fst (entry b) \<le> fst (entry a)"

definition heap_order :: "'e heap \<Rightarrow> bool" where
  "heap_order h \<longleftrightarrow>
     (\<forall>i \<in> {2..count_h h}. slot_ge (get (storage h) (parent i)) (get (storage h) i))"

definition live :: "'e heap \<Rightarrow> (int \<times> 'e option) multiset" where
  "live h = mset (map entry (take (count_h h) (drop 1 (storage h))))"

definition child_greater :: "'e heap \<Rightarrow> nat \<Rightarrow> nat \<Rightarrow> bool" where
  "child_greater h i c \<longleftrightarrow> c \<le> count_h h \<and> key h i < key h c"

definition sink_choice :: "'e heap \<Rightarrow> nat \<Rightarrow> nat option" where
  "sink_choice h i =
     (if child_greater h i (left i) then Some (left i)
      else if child_greater h i (right i) then Some (right i)
      else None)"

definition float_moves :: "'e heap \<Rightarrow> nat \<Rightarrow> bool" where
  "float_moves h i \<longleftrightarrow> parent i \<noteq> 0 \<and> key h (parent i) < key h i"

definition heap_except :: "nat set \<Rightarrow> 'e heap \<Rightarrow> bool" where
  "heap_except B h \<longleftrightarrow>
     (\<forall>j \<in> {2..count_h h}. parent j \<notin> B \<longrightarrow> key h j \<le> key h (parent j))"

definition heap_but :: "nat \<Rightarrow> 'e heap \<Rightarrow> bool" where
  "heap_but i h \<longleftrightarrow>
     (\<forall>j \<in> {2..count_h h}. j \<noteq> i \<longrightarrow> key h j \<le> key h (parent j)) \<and>
     (\<forall>j \<in> {2..count_h h}. parent j = i \<longrightarrow> 2 \<le> i \<longrightarrow> key h j \<le> key h (parent i))"

function climb :: "'e heap \<Rightarrow> int \<Rightarrow> nat \<Rightarrow> nat" where
  "climb h k i = (if parent i \<noteq> 0 \<and> key h (parent i) < k then climb h k (parent i) else i)"
  by pat_completeness auto
termination
  by (relation "measure (\<lambda>(h, k, i). i)") (auto simp: parent_def)

declare climb.simps [simp del]

function blocked :: "'e heap \<Rightarrow> nat \<Rightarrow> nat \<Rightarrow> bool" where
  "blocked h b i =
     (if parent i = 0 then False
      else key h i \<le> key h b \<and> (parent i = b \<or> blocked h b (parent i)))"
  by pat_completeness auto
termination
  by (relation "measure (\<lambda>(h, b, i). i)") (auto simp: parent_def)

declare blocked.simps [simp del]

definition only_capacity_errors :: "'e heap \<Rightarrow> bool" where
  "only_capacity_errors h0 \<longleftrightarrow>
     (\<forall>ops. case run h0 ops of
        Inl (err, h) \<Rightarrow> err = HeapFull \<and> count_h h = size_h h
      | Inr h \<Rightarrow>
          (\<forall>p e. (count_h h = size_h h \<and> insert_h h p e = Inl (HeapFull, h)) \<or>
                 (count_h h < size_h h \<and> (\<exists>h'. insert_h h p e = Inr h'))))"

definition slot_less :: "'e slot \<Rightarrow> 'e slot \<Rightarrow> bool" where
  "slot_less a b =
     (case a of Rec p x \<Rightarrow> (case b of Rec q y \<Rightarrow> js_less p q | Undefined \<Rightarrow> False | Null \<Rightarrow> False)
      | Undefined \<Rightarrow> False | Null \<Rightarrow> False)"

definition above_count :: "'e heap \<Rightarrow> nat \<Rightarrow> nat" where
  "above_count h i = size (filter_mset (slot_less (get (storage h) i)) (mset (storage h)))"

definition below_count :: "'e heap \<Rightarrow> nat \<Rightarrow> nat" where
  "below_count h i = size (filter_mset (\<lambda>x. slot_less x (get (storage h) i)) (mset (storage h)))"

definition is_rec :: "'e slot \<Rightarrow> bool" where
  "is_rec s = (case s of Rec p e \<Rightarrow> True | Undefined \<Rightarrow> False | Null \<Rightarrow> False)"

definition shaped :: "'e heap \<Rightarrow> bool" where
  "shaped h \<longleftrightarrow>
     length (storage h) = size_h h + 1 \<and> count_h h \<le> size_h h \<and>
     (\<forall>i \<in> {1..count_h h}. is_rec (get (storage h) i))"

definition cell_less :: "'e heap \<Rightarrow> nat \<Rightarrow> nat \<Rightarrow> bool" where
  "cell_less h i j = slot_less (get (storage h) i) (get (storage h) j)"

definition child_above :: "'e heap \<Rightarrow> nat \<Rightarrow> nat \<Rightarrow> bool" where
  "child_above h i c \<longleftrightarrow> c \<le> count_h h \<and> cell_less h i c"

definition sink_pick :: "'e heap \<Rightarrow> nat \<Rightarrow> nat option" where
  "sink_pick h i =
     (if child_above h i (left i) then Some (left i)
      else if child_above h i (right i) then Some (right i)
      else None)"

definition float_goes :: "'e heap \<Rightarrow> nat \<Rightarrow> bool" where
  "float_goes h i \<longleftrightarrow> parent i \<noteq> 0 \<and> cell_less h (parent i) i"

section \<open>Termination of sink and float\<close>

text \<open>
  Both routines recurse on the state that an inner call returns, so their termination rests
  on what the inner call preserves: the counters, the multiset of cells, and every cell
  outside the part of the tree the call works on. Each iteration at an index strictly raises
  (sink) or lowers (float) the priority stored there, and the cells are a fixed multiset.
\<close>

lemma slot_less_irrefl: "\<not> slot_less a a"
  by (auto simp: slot_less_def js_less_def split: slot.splits option.splits number.splits)

lemma slot_less_trans: "slot_less a b \<Longrightarrow> slot_less b c \<Longrightarrow> slot_less a c"
  by (auto simp: slot_less_def js_less_def split: slot.splits option.splits number.splits)

lemma less_at_TrueD:
  assumes "less_at h i j = Inr True"
  shows "i < length (storage h)" "j < length (storage h)"
    "slot_less (get (storage h) i) (get (storage h) j)" "i \<noteq> j"
  using assms
  by (auto simp: less_at_def priority_at_def get_def slot_less_def js_less_def
      split: sum.splits slot.splits if_splits option.splits number.splits)

lemma greater_at_TrueD:
  assumes "greater_at h i j = Inr True"
  shows "i < length (storage h)" "j < length (storage h)"
    "slot_less (get (storage h) j) (get (storage h) i)" "i \<noteq> j"
  using assms
  by (auto simp: greater_at_def priority_at_def get_def slot_less_def js_less_def
      split: sum.splits slot.splits if_splits option.splits number.splits)

lemma swap_count [simp]: "count_h (swap h i j) = count_h h"
  by (simp add: swap_def Let_def)

lemma swap_size [simp]: "size_h (swap h i j) = size_h h"
  by (simp add: swap_def Let_def)

lemma swap_storage:
  "i < length (storage h) \<Longrightarrow> j < length (storage h) \<Longrightarrow>
   storage (swap h i j) = (storage h)[i := storage h ! j, j := storage h ! i]"
  by (simp add: swap_def Let_def put_def get_def)

lemma swap_mset:
  "i < length (storage h) \<Longrightarrow> j < length (storage h) \<Longrightarrow>
   mset (storage (swap h i j)) = mset (storage h)"
  by (simp add: swap_storage mset_swap)

lemma swap_length:
  "i < length (storage h) \<Longrightarrow> j < length (storage h) \<Longrightarrow>
   length (storage (swap h i j)) = length (storage h)"
  by (simp add: swap_storage)

lemma swap_get:
  "i < length (storage h) \<Longrightarrow> j < length (storage h) \<Longrightarrow>
   get (storage (swap h i j)) k =
     (if k = j then get (storage h) i else if k = i then get (storage h) j
      else get (storage h) k)"
  by (auto simp: swap_storage get_def)

lemma sink_cond_TrueD:
  assumes "sink_cond h i = Inr True"
  shows "left i \<le> count_h h"
    "less_at h i (left i) = Inr False \<Longrightarrow> right i \<le> count_h h"
  using assms
  by (auto simp: sink_cond_def left_def right_def split: sum.splits if_splits)

lemma sink_dom_props:
  assumes "sink_dom (h, i)" and "sink h i = Inr h'"
  shows "count_h h' = count_h h \<and> size_h h' = size_h h \<and>
         mset (storage h') = mset (storage h) \<and>
         (\<forall>j. j < i \<or> count_h h < j \<longrightarrow> get (storage h') j = get (storage h) j)"
  using assms
proof (induction h i arbitrary: h' rule: sink.pinduct)
  case (1 h i)
  note step = "1.prems"[unfolded sink.psimps[OF "1.hyps"]]
  have chain: "count_h h' = count_h h \<and> size_h h' = size_h h \<and>
         mset (storage h') = mset (storage h) \<and>
         (\<forall>j. j < i \<or> count_h h < j \<longrightarrow> get (storage h') j = get (storage h) j)"
    if lt: "less_at h i c = Inr True" and ic: "i < c" and cc: "c \<le> count_h h"
      and p1: "count_h h1 = count_h h \<and> size_h h1 = size_h h \<and>
              mset (storage h1) = mset (storage (swap h i c)) \<and>
              (\<forall>j. j < c \<or> count_h h < j \<longrightarrow>
                   get (storage h1) j = get (storage (swap h i c)) j)"
      and p2: "count_h h' = count_h h1 \<and> size_h h' = size_h h1 \<and>
              mset (storage h') = mset (storage h1) \<and>
              (\<forall>j. j < i \<or> count_h h1 < j \<longrightarrow> get (storage h') j = get (storage h1) j)"
    for c h1
  proof -
    note r = less_at_TrueD[OF lt]
    have "get (storage h') j = get (storage h) j" if "j < i \<or> count_h h < j" for j
    proof -
      have "get (storage h') j = get (storage h1) j" using p2 p1 that by auto
      also have "\<dots> = get (storage (swap h i c)) j" using p1 that ic by auto
      also have "\<dots> = get (storage h) j" using that ic cc r by (auto simp: swap_get)
      finally show ?thesis .
    qed
    with p1 p2 r show ?thesis by (simp add: swap_mset)
  qed
  show ?case
  proof (cases "sink_cond h i")
    case (Inl e)
    with step show ?thesis by simp
  next
    case (Inr c)
    note c = this
    show ?thesis
    proof (cases c)
      case False
      with step c show ?thesis by simp
    next
      case True
      note ctrue = this
      from c ctrue have cT: "sink_cond h i = Inr True" by simp
      show ?thesis
      proof (cases "less_at h i (left i)")
        case (Inl e)
        with step c ctrue show ?thesis by simp
      next
        case (Inr l)
        note l = this
        show ?thesis
        proof (cases l)
          case True
          from l True have lt: "less_at h i (left i) = Inr True" by simp
          from step c ctrue l True obtain h1 where
            h1: "sink (swap h i (left i)) (left i) = Inr h1" and h': "sink h1 i = Inr h'"
            by (auto split: sum.splits)
          have p1: "count_h h1 = count_h h \<and> size_h h1 = size_h h \<and>
              mset (storage h1) = mset (storage (swap h i (left i))) \<and>
              (\<forall>j. j < left i \<or> count_h h < j \<longrightarrow>
                   get (storage h1) j = get (storage (swap h i (left i))) j)"
            using "1.IH"(1)[OF c _ l True h1] ctrue by simp
          have p2: "count_h h' = count_h h1 \<and> size_h h' = size_h h1 \<and>
              mset (storage h') = mset (storage h1) \<and>
              (\<forall>j. j < i \<or> count_h h1 < j \<longrightarrow> get (storage h') j = get (storage h1) j)"
            using "1.IH"(2)[OF c _ l True h1 h'] ctrue by simp
          have "i < left i" using less_at_TrueD(4)[OF lt] by (simp add: left_def)
          then show ?thesis
            using chain[OF lt _ sink_cond_TrueD(1)[OF cT] p1 p2] by simp
        next
          case False
          note lfalse = this
          from l False have lf: "less_at h i (left i) = Inr False" by simp
          show ?thesis
          proof (cases "less_at h i (right i)")
            case (Inl e)
            with step c ctrue l lfalse show ?thesis by simp
          next
            case (Inr r)
            note rr = this
            show ?thesis
            proof (cases r)
              case False
              with step c ctrue l lfalse rr show ?thesis by simp
            next
              case True
              from rr True have lt: "less_at h i (right i) = Inr True" by simp
              from step c ctrue l lfalse rr True obtain h1 where
                h1: "sink (swap h i (right i)) (right i) = Inr h1" and h': "sink h1 i = Inr h'"
                by (auto split: sum.splits)
              have p1: "count_h h1 = count_h h \<and> size_h h1 = size_h h \<and>
                  mset (storage h1) = mset (storage (swap h i (right i))) \<and>
                  (\<forall>j. j < right i \<or> count_h h < j \<longrightarrow>
                       get (storage h1) j = get (storage (swap h i (right i))) j)"
                using "1.IH"(3)[OF c _ l lfalse rr True h1] ctrue by simp
              have p2: "count_h h' = count_h h1 \<and> size_h h' = size_h h1 \<and>
                  mset (storage h') = mset (storage h1) \<and>
                  (\<forall>j. j < i \<or> count_h h1 < j \<longrightarrow>
                       get (storage h') j = get (storage h1) j)"
                using "1.IH"(4)[OF c _ l lfalse rr True h1 h'] ctrue by simp
              have "i < right i" by (simp add: right_def)
              then show ?thesis
                using chain[OF lt _ sink_cond_TrueD(2)[OF cT lf] p1 p2] by simp
            qed
          qed
        qed
      qed
    qed
  qed
qed

lemma above_count_decrease:
  assumes m: "mset (storage h1) = mset (storage h)"
    and lt: "slot_less (get (storage h) i) (get (storage h1) i)"
    and len: "i < length (storage h1)"
  shows "above_count h1 i < above_count h i"
proof -
  let ?a = "get (storage h) i" and ?b = "get (storage h1) i"
  let ?M = "mset (storage h)"
  have bin: "?b \<in># ?M"
    using len m by (metis get_def nth_mem_mset)
  have sub: "filter_mset (slot_less ?b) ?M \<subseteq># filter_mset (slot_less ?a) ?M"
    by (rule filter_mset_mono_strong) (auto intro: slot_less_trans[OF lt])
  have "?b \<in># filter_mset (slot_less ?a) ?M" using bin lt by simp
  moreover have "?b \<notin># filter_mset (slot_less ?b) ?M" by (simp add: slot_less_irrefl)
  ultimately have "filter_mset (slot_less ?b) ?M \<subset># filter_mset (slot_less ?a) ?M"
    using sub by (metis subset_mset.less_le)
  then show ?thesis
    unfolding above_count_def m by (rule mset_subset_size)
qed

lemma sink_total: "All sink_dom"
proof (relation "(\<lambda>(h, i). count_h h - i) <*mlex*> measure (\<lambda>(h, i). above_count h i)", goal_cases)
  case 1
  show ?case by (simp add: wf_mlex)
next
  case (2 h i c l)
  then have lt: "less_at h i (left i) = Inr True" and cT: "sink_cond h i = Inr True" by simp_all
  have "i < left i" using less_at_TrueD(4)[OF lt] by (simp add: left_def)
  moreover have "left i \<le> count_h h" using sink_cond_TrueD(1)[OF cT] .
  ultimately show ?case by (auto intro!: mlex_less)
next
  case (3 h i c l h1)
  then have lt: "less_at h i (left i) = Inr True" and cT: "sink_cond h i = Inr True" by simp_all
  note r = less_at_TrueD[OF lt]
  have "i < left i" using r(4) by (simp add: left_def)
  from sink_dom_props[OF 3(6) 3(5)]
  have p: "count_h h1 = count_h h" "mset (storage h1) = mset (storage h)"
    "get (storage h1) i = get (storage h) (left i)"
    using r \<open>i < left i\<close> by (auto simp: swap_mset swap_get)
  have "length (storage h1) = length (storage h)" using p(2) by (metis size_mset)
  then have "above_count h1 i < above_count h i"
    using above_count_decrease[OF p(2), of i] r p(3) by simp
  then show ?case using p(1) by (auto intro!: mlex_leq)
next
  case (4 h i c l r)
  then have lt: "less_at h i (right i) = Inr True" and cT: "sink_cond h i = Inr True"
    and lf: "less_at h i (left i) = Inr False" by simp_all
  have "i < right i" by (simp add: right_def)
  moreover have "right i \<le> count_h h" using sink_cond_TrueD(2)[OF cT lf] .
  ultimately show ?case by (auto intro!: mlex_less)
next
  case (5 h i c l r h1)
  then have lt: "less_at h i (right i) = Inr True" by simp
  note rr = less_at_TrueD[OF lt]
  have "i < right i" by (simp add: right_def)
  from sink_dom_props[OF 5(8) 5(7)]
  have p: "count_h h1 = count_h h" "mset (storage h1) = mset (storage h)"
    "get (storage h1) i = get (storage h) (right i)"
    using rr \<open>i < right i\<close> by (auto simp: swap_mset swap_get)
  have "length (storage h1) = length (storage h)" using p(2) by (metis size_mset)
  then have "above_count h1 i < above_count h i"
    using above_count_decrease[OF p(2), of i] rr p(3) by simp
  then show ?case using p(1) by (auto intro!: mlex_leq)
qed

lemma below_count_decrease:
  assumes m: "mset (storage h1) = mset (storage h)"
    and lt: "slot_less (get (storage h1) i) (get (storage h) i)"
    and len: "i < length (storage h1)"
  shows "below_count h1 i < below_count h i"
proof -
  let ?a = "get (storage h) i" and ?b = "get (storage h1) i"
  let ?M = "mset (storage h)"
  have bin: "?b \<in># ?M"
    using len m by (metis get_def nth_mem_mset)
  have sub: "filter_mset (\<lambda>x. slot_less x ?b) ?M \<subseteq># filter_mset (\<lambda>x. slot_less x ?a) ?M"
    by (rule filter_mset_mono_strong) (auto intro: slot_less_trans[OF _ lt])
  have "?b \<in># filter_mset (\<lambda>x. slot_less x ?a) ?M" using bin lt by simp
  moreover have "?b \<notin># filter_mset (\<lambda>x. slot_less x ?b) ?M" by (simp add: slot_less_irrefl)
  ultimately have "filter_mset (\<lambda>x. slot_less x ?b) ?M \<subset># filter_mset (\<lambda>x. slot_less x ?a) ?M"
    using sub by (metis subset_mset.less_le)
  then show ?thesis
    unfolding below_count_def m by (rule mset_subset_size)
qed

lemma float_dom_props:
  assumes "float_dom (h, i)" and "float h i = Inr h'"
  shows "count_h h' = count_h h \<and> size_h h' = size_h h \<and>
         mset (storage h') = mset (storage h) \<and>
         (\<forall>j>i. get (storage h') j = get (storage h) j)"
  using assms
proof (induction h i arbitrary: h' rule: float.pinduct)
  case (1 h i)
  note step = "1.prems"[unfolded float.psimps[OF "1.hyps"]]
  show ?case
  proof (cases "parent i \<noteq> 0 \<and> greater_at h i (parent i) = Inr True")
    case False
    with step show ?thesis by (auto split: sum.splits if_splits)
  next
    case True
    then have p0: "parent i \<noteq> 0" and gt: "greater_at h i (parent i) = Inr True" by simp_all
    from step p0 gt obtain h1 where
      h1: "float (swap h i (parent i)) (parent i) = Inr h1" and h': "float h1 i = Inr h'"
      by (auto split: sum.splits)
    note r = greater_at_TrueD[OF gt]
    have p1: "count_h h1 = count_h h \<and> size_h h1 = size_h h \<and>
        mset (storage h1) = mset (storage (swap h i (parent i))) \<and>
        (\<forall>j>parent i. get (storage h1) j = get (storage (swap h i (parent i))) j)"
      using "1.IH"(1)[OF p0 gt _ h1] by simp
    have p2: "count_h h' = count_h h1 \<and> size_h h' = size_h h1 \<and>
        mset (storage h') = mset (storage h1) \<and>
        (\<forall>j>i. get (storage h') j = get (storage h1) j)"
      using "1.IH"(2)[OF p0 gt _ h1 h'] by simp
    have "parent i < i" using p0 by (simp add: parent_def)
    with p1 p2 r show ?thesis
      by (auto simp: swap_mset swap_get)
  qed
qed

lemma float_total: "All float_dom"
proof (relation "(\<lambda>(h, i). i) <*mlex*> measure (\<lambda>(h, i). below_count h i)", goal_cases)
  case 1
  show ?case by (simp add: wf_mlex)
next
  case (2 h i g)
  then have "parent i < i" by (simp add: parent_def)
  then show ?case by (auto intro!: mlex_less)
next
  case (3 h i g h1)
  then have gt: "greater_at h i (parent i) = Inr True" and p0: "parent i \<noteq> 0" by simp_all
  note r = greater_at_TrueD[OF gt]
  have "parent i < i" using p0 by (simp add: parent_def)
  from float_dom_props[OF 3(5) 3(4)]
  have p: "mset (storage h1) = mset (storage h)"
    "get (storage h1) i = get (storage h) (parent i)"
    using r \<open>parent i < i\<close> by (auto simp: swap_mset swap_get)
  have "length (storage h1) = length (storage h)" using p(1) by (metis size_mset)
  then have "below_count h1 i < below_count h i"
    using below_count_decrease[OF p(1), of i] r p(2) by simp
  then show ?case by (auto intro!: mlex_leq)
qed

termination sink
  by (rule sink_total)

termination float
  by (rule float_total)

declare sink.simps [simp del]

declare float.simps [simp del]

lemma sink_props:
  assumes "sink h i = Inr h'"
  shows "count_h h' = count_h h" "size_h h' = size_h h"
    "mset (storage h') = mset (storage h)"
    "j < i \<or> count_h h < j \<Longrightarrow> get (storage h') j = get (storage h) j"
  using sink_dom_props[OF _ assms] sink_total by auto

termination buildheap_from
  by (relation "measure (\<lambda>(h, i). size_h h + 1 - i)") (auto simp: sink_props)

termination sort_h
  by (relation "measure (\<lambda>h. count_h h)") (auto simp: sink_props)

declare buildheap_from.simps [simp del]

declare sort_h.simps [simp del]

lemma float_props:
  assumes "float h i = Inr h'"
  shows "count_h h' = count_h h" "size_h h' = size_h h"
    "mset (storage h') = mset (storage h)"
    "i < j \<Longrightarrow> get (storage h') j = get (storage h) j"
  using float_dom_props[OF _ assms] float_total by auto

section \<open>Heaps of records\<close>

text \<open>
  A heap is \<open>shaped\<close> when its storage has \<open>size + 1\<close> cells, \<open>count \<le> size\<close>, and the
  cells \<open>1..count\<close> hold records, whatever their priorities (numbers, NaN or
  \<open>undefined\<close>). On a shaped heap no read fails, and \<open>_sink\<close> and \<open>_float\<close> obey the two
  rules below: one case for the loop exit, one for an iteration (a swap, the inner call, and
  the rest of the loop).
\<close>

lemma is_rec_Rec: "is_rec s \<longleftrightarrow> (\<exists>p e. s = Rec p e)"
  by (auto simp: is_rec_def split: slot.splits)

lemma shaped_lengthD: "shaped h \<Longrightarrow> i \<le> count_h h \<Longrightarrow> i < length (storage h)"
  by (simp add: shaped_def)

lemma shaped_recD: "shaped h \<Longrightarrow> 1 \<le> i \<Longrightarrow> i \<le> count_h h \<Longrightarrow> is_rec (get (storage h) i)"
  by (simp add: shaped_def)

lemma less_at_shaped:
  assumes "shaped h" "1 \<le> i" "i \<le> count_h h" "1 \<le> j" "j \<le> count_h h"
  shows "less_at h i j = Inr (cell_less h i j)"
  using shaped_recD[OF assms(1,2,3)] shaped_recD[OF assms(1,4,5)]
  by (auto simp: is_rec_Rec less_at_def priority_at_def cell_less_def slot_less_def)

lemma greater_at_shaped:
  assumes "shaped h" "1 \<le> i" "i \<le> count_h h" "1 \<le> j" "j \<le> count_h h"
  shows "greater_at h i j = Inr (cell_less h j i)"
  using shaped_recD[OF assms(1,2,3)] shaped_recD[OF assms(1,4,5)]
  by (auto simp: is_rec_Rec greater_at_def priority_at_def cell_less_def slot_less_def)

lemma swap_shaped:
  assumes "shaped h" "1 \<le> i" "i \<le> count_h h" "1 \<le> j" "j \<le> count_h h"
  shows "shaped (swap h i j)"
proof -
  have len: "i < length (storage h)" "j < length (storage h)"
    using assms by (auto simp: shaped_def)
  show ?thesis
    using assms len
    by (auto simp: shaped_def swap_get swap_length)
qed

lemma sink_cond_shaped:
  assumes "shaped h" "1 \<le> i"
  shows "sink_cond h i = Inr (child_above h i (left i) \<or> child_above h i (right i))"
  using assms
  by (auto simp: sink_cond_def child_above_def less_at_shaped left_def right_def)

lemma sink_unfold_shaped:
  assumes "shaped h" "1 \<le> i"
  shows "sink h i =
     (if child_above h i (left i) then
        (case sink (swap h i (left i)) (left i) of Inl e \<Rightarrow> Inl e | Inr h1 \<Rightarrow> sink h1 i)
      else if child_above h i (right i) then
        (case sink (swap h i (right i)) (right i) of Inl e \<Rightarrow> Inl e | Inr h1 \<Rightarrow> sink h1 i)
      else Inr h)"
proof -
  have l: "less_at h i (left i) = Inr (cell_less h i (left i))" if "left i \<le> count_h h"
    using that assms by (intro less_at_shaped) (auto simp: left_def)
  have r: "less_at h i (right i) = Inr (cell_less h i (right i))" if "right i \<le> count_h h"
    using that assms by (intro less_at_shaped) (auto simp: right_def)
  have lr: "right i \<le> count_h h \<Longrightarrow> left i \<le> count_h h" by (simp add: left_def right_def)
  show ?thesis
    apply (subst sink.simps)
    apply (simp only: sink_cond_shaped[OF assms])
    using l r lr
    apply (auto simp: child_above_def)
    done
qed

lemma sink_pick_SomeD:
  assumes "sink_pick h i = Some c" "1 \<le> i"
  shows "i < c" "c \<le> count_h h" "cell_less h i c" "parent c = i" "left i \<le> count_h h"
  using assms
  by (auto simp: sink_pick_def child_above_def left_def right_def parent_def
      split: if_splits)

lemma sink_unfold_pick:
  assumes "shaped h" "1 \<le> i"
  shows "sink h i =
     (case sink_pick h i of
        None \<Rightarrow> Inr h
      | Some c \<Rightarrow> (case sink (swap h i c) c of Inl e \<Rightarrow> Inl e | Inr h1 \<Rightarrow> sink h1 i))"
  by (simp add: sink_unfold_shaped[OF assms] sink_pick_def)

lemma sink_shaped_induct [consumes 2, case_names stop step]:
  assumes wf: "shaped h" and i: "1 \<le> i"
    and stop: "\<And>h i. shaped h \<Longrightarrow> 1 \<le> i \<Longrightarrow> sink_pick h i = None \<Longrightarrow> P h i h"
    and step: "\<And>h i c h1 h'. shaped h \<Longrightarrow> 1 \<le> i \<Longrightarrow> sink_pick h i = Some c \<Longrightarrow>
        shaped (swap h i c) \<Longrightarrow>
        sink (swap h i c) c = Inr h1 \<Longrightarrow> shaped h1 \<Longrightarrow> P (swap h i c) c h1 \<Longrightarrow>
        sink h1 i = Inr h' \<Longrightarrow> shaped h' \<Longrightarrow> P h1 i h' \<Longrightarrow> P h i h'"
  shows "\<exists>h'. sink h i = Inr h' \<and> shaped h' \<and> P h i h'"
  using wf i
proof (induction h i rule: sink.induct)
  case (1 h i)
  note wf = \<open>shaped h\<close> and i = \<open>1 \<le> i\<close>
  note unf = sink_unfold_pick[OF wf i]
  show ?case
  proof (cases "sink_pick h i")
    case None
    then show ?thesis using unf stop[OF wf i None] wf by simp
  next
    case (Some c)
    note d = sink_pick_SomeD[OF Some i]
    have ilive: "i \<le> count_h h" using d by simp
    have cond: "sink_cond h i = Inr True"
      using Some by (auto simp: sink_cond_shaped[OF wf i] sink_pick_def split: if_splits)
    have wfs: "shaped (swap h i c)"
      using swap_shaped[OF wf i ilive _ d(2)] d(1) i by simp
    have c1: "1 \<le> c" using d(1) by simp
    have ll: "less_at h i (left i) = Inr (cell_less h i (left i))"
      using d(5) wf i ilive by (intro less_at_shaped) (auto simp: left_def)
    have ex1: "\<exists>h1. sink (swap h i c) c = Inr h1 \<and> shaped h1 \<and> P (swap h i c) c h1"
    proof (cases "child_above h i (left i)")
      case True
      then have cl: "c = left i" using Some by (simp add: sink_pick_def)
      have "less_at h i (left i) = Inr True" using ll True by (simp add: child_above_def)
      from "1.IH"(1)[OF cond _ this _ wfs[unfolded cl]] c1 cl show ?thesis by simp
    next
      case False
      then have cr: "c = right i" and cg: "child_above h i (right i)"
        using Some by (auto simp: sink_pick_def split: if_splits)
      have lf: "less_at h i (left i) = Inr False"
        using ll False d(5) by (simp add: child_above_def)
      have "less_at h i (right i) = Inr True"
        using cg wf i ilive less_at_shaped[of h i "right i"]
        by (auto simp: child_above_def right_def)
      from "1.IH"(3)[OF cond _ lf _ this _ wfs[unfolded cr]] c1 cr show ?thesis by simp
    qed
    then obtain h1 where h1: "sink (swap h i c) c = Inr h1" "shaped h1" "P (swap h i c) c h1"
      by blast
    have ex2: "\<exists>h'. sink h1 i = Inr h' \<and> shaped h' \<and> P h1 i h'"
    proof (cases "child_above h i (left i)")
      case True
      then have cl: "c = left i" using Some by (simp add: sink_pick_def)
      have "less_at h i (left i) = Inr True" using ll True by (simp add: child_above_def)
      from "1.IH"(2)[OF cond _ this _ h1(1)[unfolded cl] h1(2) i] show ?thesis by simp
    next
      case False
      then have cr: "c = right i" and cg: "child_above h i (right i)"
        using Some by (auto simp: sink_pick_def split: if_splits)
      have lf: "less_at h i (left i) = Inr False"
        using ll False d(5) by (simp add: child_above_def)
      have "less_at h i (right i) = Inr True"
        using cg wf i ilive less_at_shaped[of h i "right i"]
        by (auto simp: child_above_def right_def)
      from "1.IH"(4)[OF cond _ lf _ this _ h1(1)[unfolded cr] h1(2) i] show ?thesis by simp
    qed
    then obtain h' where h': "sink h1 i = Inr h'" "shaped h'" "P h1 i h'"
      by blast
    have "sink h i = Inr h'" using unf Some h1(1) h'(1) by simp
    moreover have "P h i h'"
      using step[OF wf i Some wfs h1 h'] .
    ultimately show ?thesis using h'(2) by blast
  qed
qed

lemma float_unfold_shaped:
  assumes "shaped h" "1 \<le> i" "i \<le> count_h h"
  shows "float h i =
     (if float_goes h i then
        (case float (swap h i (parent i)) (parent i) of Inl e \<Rightarrow> Inl e | Inr h1 \<Rightarrow> float h1 i)
      else Inr h)"
proof -
  have "greater_at h i (parent i) = Inr (cell_less h (parent i) i)" if "parent i \<noteq> 0"
    using that assms by (intro greater_at_shaped) (auto simp: parent_def)
  then show ?thesis
    by (subst float.simps) (auto simp: float_goes_def)
qed

lemma float_shaped_induct [consumes 3, case_names stop step]:
  assumes wf: "shaped h" and i: "1 \<le> i" and ic: "i \<le> count_h h"
    and stop: "\<And>h i. shaped h \<Longrightarrow> 1 \<le> i \<Longrightarrow> i \<le> count_h h \<Longrightarrow>
        \<not> float_goes h i \<Longrightarrow> P h i h"
    and step: "\<And>h i h1 h'. shaped h \<Longrightarrow> 1 \<le> i \<Longrightarrow> i \<le> count_h h \<Longrightarrow>
        float_goes h i \<Longrightarrow> shaped (swap h i (parent i)) \<Longrightarrow>
        float (swap h i (parent i)) (parent i) = Inr h1 \<Longrightarrow> shaped h1 \<Longrightarrow>
        P (swap h i (parent i)) (parent i) h1 \<Longrightarrow>
        float h1 i = Inr h' \<Longrightarrow> shaped h' \<Longrightarrow> P h1 i h' \<Longrightarrow> P h i h'"
  shows "\<exists>h'. float h i = Inr h' \<and> shaped h' \<and> P h i h'"
  using wf i ic
proof (induction h i rule: float.induct)
  case (1 h i)
  note wf = \<open>shaped h\<close> and i = \<open>1 \<le> i\<close> and ic = \<open>i \<le> count_h h\<close>
  note unf = float_unfold_shaped[OF wf i ic]
  show ?case
  proof (cases "float_goes h i")
    case False
    then show ?thesis using unf stop[OF wf i ic False] wf by simp
  next
    case True
    then have p0: "parent i \<noteq> 0" and lt: "cell_less h (parent i) i"
      by (simp_all add: float_goes_def)
    have p1: "1 \<le> parent i" "parent i \<le> count_h h" "parent i < i"
      using p0 ic by (auto simp: parent_def)
    have gt: "greater_at h i (parent i) = Inr True"
      using greater_at_shaped[OF wf i ic p1(1,2)] lt by simp
    have wfs: "shaped (swap h i (parent i))"
      using swap_shaped[OF wf i ic p1(1,2)] .
    from "1.IH"(1)[OF p0 gt _ wfs p1(1)] p1(2)
    obtain h1 where h1: "float (swap h i (parent i)) (parent i) = Inr h1" "shaped h1"
      "P (swap h i (parent i)) (parent i) h1"
      by auto
    have "count_h h1 = count_h h" using float_props(1)[OF h1(1)] by simp
    with "1.IH"(2)[OF p0 gt _ h1(1) h1(2) i] ic
    obtain h' where h': "float h1 i = Inr h'" "shaped h'" "P h1 i h'"
      by auto
    have "float h i = Inr h'" using unf True h1(1) h'(1) by simp
    moreover have "P h i h'"
      using step[OF wf i ic True wfs h1 h'] .
    ultimately show ?thesis using h'(2) by blast
  qed
qed

lemma sink_shaped_ok:
  assumes "shaped h" "1 \<le> i"
  shows "\<exists>h'. sink h i = Inr h' \<and> shaped h' \<and> count_h h' = count_h h \<and>
     size_h h' = size_h h \<and> sink_pick h' i = None"
proof -
  have "\<exists>h'. sink h i = Inr h' \<and> shaped h' \<and> sink_pick h' i = None"
    by (rule sink_shaped_induct[OF assms, where P = "\<lambda>h i h'. sink_pick h' i = None"]) simp_all
  then show ?thesis using sink_props(1,2)[of h i] by auto
qed

lemma float_shaped_ok:
  assumes "shaped h" "1 \<le> i" "i \<le> count_h h"
  shows "\<exists>h'. float h i = Inr h' \<and> shaped h' \<and> count_h h' = count_h h \<and>
     size_h h' = size_h h \<and> \<not> float_goes h' i"
proof -
  have "\<exists>h'. float h i = Inr h' \<and> shaped h' \<and> \<not> float_goes h' i"
    by (rule float_shaped_induct[OF assms, where P = "\<lambda>h i h'. \<not> float_goes h' i"]) simp_all
  then show ?thesis using float_props(1,2)[of h i] by auto
qed

section \<open>Well-formed heaps\<close>

text \<open>
  A well-formed heap is a shaped heap whose records have numeric priorities other than NaN.
  There the comparison of cells is the order of the integers, and the two rules hold with
  well-formedness in place of shape.
\<close>

lemma numeric_Rec: "numeric s \<longleftrightarrow> (\<exists>p e. s = Rec (Some (Num p)) e)"
  by (auto simp: numeric_def split: slot.splits option.splits number.splits)

lemma wf_lengthD: "well_formed h \<Longrightarrow> i \<le> count_h h \<Longrightarrow> i < length (storage h)"
  by (simp add: well_formed_def)

lemma wf_numericD: "well_formed h \<Longrightarrow> 1 \<le> i \<Longrightarrow> i \<le> count_h h \<Longrightarrow> numeric (get (storage h) i)"
  by (simp add: well_formed_def)

lemma slot_ge_wf:
  assumes "well_formed h" "1 \<le> i" "i \<le> count_h h" "1 \<le> j" "j \<le> count_h h"
  shows "slot_ge (get (storage h) i) (get (storage h) j) \<longleftrightarrow> key h j \<le> key h i"
  using wf_numericD[OF assms(1,2,3)] wf_numericD[OF assms(1,4,5)]
  by (auto simp: slot_ge_def key_def)

lemma swap_wf:
  assumes "well_formed h" "1 \<le> i" "i \<le> count_h h" "1 \<le> j" "j \<le> count_h h"
  shows "well_formed (swap h i j)"
proof -
  have len: "i < length (storage h)" "j < length (storage h)"
    using assms by (auto simp: well_formed_def)
  show ?thesis
    using assms len
    by (auto simp: well_formed_def swap_get swap_length)
qed

lemma swap_key:
  assumes "i < length (storage h)" "j < length (storage h)"
  shows "key (swap h i j) k = (if k = j then key h i else if k = i then key h j else key h k)"
  using assms by (simp add: key_def swap_get)

lemma sink_choice_SomeD:
  assumes "sink_choice h i = Some c" "1 \<le> i"
  shows "i < c" "c \<le> count_h h" "key h i < key h c" "parent c = i" "left i \<le> count_h h"
  using assms
  by (auto simp: sink_choice_def child_greater_def left_def right_def parent_def
      split: if_splits)

lemma wf_shaped: "well_formed h \<Longrightarrow> shaped h"
  by (auto simp: well_formed_def shaped_def numeric_Rec is_rec_Rec)

lemma cell_less_wf:
  assumes "well_formed h" "1 \<le> i" "i \<le> count_h h" "1 \<le> j" "j \<le> count_h h"
  shows "cell_less h i j \<longleftrightarrow> key h i < key h j"
  using wf_numericD[OF assms(1,2,3)] wf_numericD[OF assms(1,4,5)]
  by (auto simp: numeric_Rec cell_less_def slot_less_def js_less_def key_def entry_def)

lemma child_above_wf:
  assumes "well_formed h" "1 \<le> i" "i \<le> c"
  shows "child_above h i c \<longleftrightarrow> child_greater h i c"
  using assms cell_less_wf[OF assms(1,2), of c]
  by (auto simp: child_above_def child_greater_def)

lemma sink_pick_wf:
  assumes "well_formed h" "1 \<le> i"
  shows "sink_pick h i = sink_choice h i"
  using child_above_wf[OF assms, of "left i"] child_above_wf[OF assms, of "right i"]
  by (simp add: sink_pick_def sink_choice_def left_def right_def)

lemma float_goes_wf:
  assumes "well_formed h" "1 \<le> i" "i \<le> count_h h"
  shows "float_goes h i \<longleftrightarrow> float_moves h i"
proof (cases "parent i = 0")
  case True
  then show ?thesis by (simp add: float_goes_def float_moves_def)
next
  case False
  then have "1 \<le> parent i" "parent i \<le> count_h h" using assms(3) by (auto simp: parent_def)
  from cell_less_wf[OF assms(1) this assms(2,3)] show ?thesis
    by (simp add: float_goes_def float_moves_def)
qed

lemma sink_wf_induct [consumes 2, case_names stop step]:
  assumes wf: "well_formed h" and i: "1 \<le> i"
    and stop: "\<And>h i. well_formed h \<Longrightarrow> 1 \<le> i \<Longrightarrow> sink_choice h i = None \<Longrightarrow> P h i h"
    and step: "\<And>h i c h1 h'. well_formed h \<Longrightarrow> 1 \<le> i \<Longrightarrow> sink_choice h i = Some c \<Longrightarrow>
        well_formed (swap h i c) \<Longrightarrow>
        sink (swap h i c) c = Inr h1 \<Longrightarrow> well_formed h1 \<Longrightarrow> P (swap h i c) c h1 \<Longrightarrow>
        sink h1 i = Inr h' \<Longrightarrow> well_formed h' \<Longrightarrow> P h1 i h' \<Longrightarrow> P h i h'"
  shows "\<exists>h'. sink h i = Inr h' \<and> well_formed h' \<and> P h i h'"
proof -
  have "\<exists>h'. sink h i = Inr h' \<and> shaped h' \<and> (well_formed h \<longrightarrow> well_formed h' \<and> P h i h')"
  proof (rule sink_shaped_induct[OF wf_shaped[OF wf] i,
        where P = "\<lambda>h i h'. well_formed h \<longrightarrow> well_formed h' \<and> P h i h'"], goal_cases)
    case (1 h i)
    show ?case using stop[of h i] 1(2,3) sink_pick_wf[of h i] by auto
  next
    case (2 h i c h1 h')
    show ?case
    proof
      assume w: "well_formed h"
      have ch: "sink_choice h i = Some c" using 2(3) sink_pick_wf[OF w 2(2)] by simp
      note d = sink_choice_SomeD[OF ch 2(2)]
      have ws: "well_formed (swap h i c)"
        using d 2(2) by (intro swap_wf[OF w]) auto
      from 2(7) ws have w1: "well_formed h1" and p1: "P (swap h i c) c h1" by simp_all
      from 2(10) w1 have w': "well_formed h'" and p2: "P h1 i h'" by simp_all
      from step[OF w 2(2) ch ws 2(5) w1 p1 2(8) w' p2] w'
      show "well_formed h' \<and> P h i h'" by simp
    qed
  qed
  with wf show ?thesis by blast
qed

lemma float_wf_induct [consumes 3, case_names stop step]:
  assumes wf: "well_formed h" and i: "1 \<le> i" and ic: "i \<le> count_h h"
    and stop: "\<And>h i. well_formed h \<Longrightarrow> 1 \<le> i \<Longrightarrow> i \<le> count_h h \<Longrightarrow>
        \<not> float_moves h i \<Longrightarrow> P h i h"
    and step: "\<And>h i h1 h'. well_formed h \<Longrightarrow> 1 \<le> i \<Longrightarrow> i \<le> count_h h \<Longrightarrow>
        float_moves h i \<Longrightarrow> well_formed (swap h i (parent i)) \<Longrightarrow>
        float (swap h i (parent i)) (parent i) = Inr h1 \<Longrightarrow> well_formed h1 \<Longrightarrow>
        P (swap h i (parent i)) (parent i) h1 \<Longrightarrow>
        float h1 i = Inr h' \<Longrightarrow> well_formed h' \<Longrightarrow> P h1 i h' \<Longrightarrow> P h i h'"
  shows "\<exists>h'. float h i = Inr h' \<and> well_formed h' \<and> P h i h'"
proof -
  have "\<exists>h'. float h i = Inr h' \<and> shaped h' \<and> (well_formed h \<longrightarrow> well_formed h' \<and> P h i h')"
  proof (rule float_shaped_induct[OF wf_shaped[OF wf] i ic,
        where P = "\<lambda>h i h'. well_formed h \<longrightarrow> well_formed h' \<and> P h i h'"], goal_cases)
    case (1 h i)
    show ?case using stop[of h i] 1(2,3,4) float_goes_wf[of h i] by auto
  next
    case (2 h i h1 h')
    show ?case
    proof
      assume w: "well_formed h"
      have mv: "float_moves h i" using 2(4) float_goes_wf[OF w 2(2,3)] by simp
      then have "parent i \<noteq> 0" by (simp add: float_moves_def)
      then have pr: "1 \<le> parent i" "parent i \<le> count_h h" using 2(3) by (auto simp: parent_def)
      have ws: "well_formed (swap h i (parent i))"
        by (rule swap_wf[OF w 2(2,3) pr])
      from 2(8) ws have w1: "well_formed h1" and p1: "P (swap h i (parent i)) (parent i) h1"
        by simp_all
      from 2(11) w1 have w': "well_formed h'" and p2: "P h1 i h'" by simp_all
      from step[OF w 2(2,3) mv ws 2(6) w1 p1 2(9) w' p2] w'
      show "well_formed h' \<and> P h i h'" by simp
    qed
  qed
  with wf show ?thesis by blast
qed

lemma float_exit:
  assumes "well_formed h" "1 \<le> i" "i \<le> count_h h"
  shows "\<exists>h'. float h i = Inr h' \<and> well_formed h' \<and> \<not> float_moves h' i"
  by (rule float_wf_induct[OF assms, where P = "\<lambda>h i h'. \<not> float_moves h' i"]) simp_all

lemma sink_exit:
  assumes "well_formed h" "1 \<le> i"
  shows "\<exists>h'. sink h i = Inr h' \<and> well_formed h' \<and> sink_choice h' i = None"
  by (rule sink_wf_induct[OF assms, where P = "\<lambda>h i h'. sink_choice h' i = None"]) simp_all

section \<open>Restoring heap order\<close>

lemma heap_order_wf:
  assumes "well_formed h"
  shows "heap_order h \<longleftrightarrow> heap_except {} h"
proof -
  have "slot_ge (get (storage h) (parent j)) (get (storage h) j) \<longleftrightarrow> key h j \<le> key h (parent j)"
    if "j \<in> {2..count_h h}" for j
    using that by (intro slot_ge_wf[OF assms]) (auto simp: parent_def)
  then show ?thesis by (simp add: heap_order_def heap_except_def)
qed

lemma heap_except_mono: "heap_except A h \<Longrightarrow> A \<subseteq> B \<Longrightarrow> heap_except B h"
  by (auto simp: heap_except_def)

lemma parent_eq_iff: "parent j = i \<longleftrightarrow> j = left i \<or> j = right i"
  by (auto simp: parent_def left_def right_def)

lemma sink_choice_NoneD:
  assumes "sink_choice h i = None" "parent j = i" "j \<le> count_h h"
  shows "key h j \<le> key h i"
  using assms
  by (auto simp: sink_choice_def child_greater_def parent_eq_iff split: if_splits)

lemma sink_restores:
  assumes "well_formed h" "1 \<le> i"
  shows "\<exists>h'. sink h i = Inr h' \<and> well_formed h' \<and>
     (\<forall>B. heap_except (insert i B) h \<longrightarrow> (i = 1 \<or> parent i \<in> B) \<longrightarrow> heap_except (B - {i}) h')"
proof (rule sink_wf_induct[OF assms, where P = "\<lambda>h i h'.
     \<forall>B. heap_except (insert i B) h \<longrightarrow> (i = 1 \<or> parent i \<in> B) \<longrightarrow> heap_except (B - {i}) h'"],
    goal_cases)
  case (1 h i)
  show ?case
  proof (intro allI impI)
    fix B assume he: "heap_except (insert i B) h"
    show "heap_except (B - {i}) h"
      unfolding heap_except_def
    proof (intro ballI impI)
      fix j assume j: "j \<in> {2..count_h h}" and pj: "parent j \<notin> B - {i}"
      show "key h j \<le> key h (parent j)"
      proof (cases "parent j = i")
        case True
        then show ?thesis using sink_choice_NoneD[OF 1(3) True] j by simp
      next
        case False
        then show ?thesis using he j pj by (simp add: heap_except_def)
      qed
    qed
  qed
next
  case (2 h i c h1 h')
  note d = sink_choice_SomeD[OF 2(3) 2(2)]
  have len: "i < length (storage h)" "c < length (storage h)"
    using d wf_lengthD[OF 2(1)] by auto
  have cnt1: "count_h h1 = count_h h" using sink_props(1)[OF 2(5)] by simp
  show ?case
  proof (intro allI impI)
    fix B assume he: "heap_except (insert i B) h" and root: "i = 1 \<or> parent i \<in> B"
    have pi: "parent i < i" using 2(2) by (simp add: parent_def)
    have he0: "heap_except (insert c (insert i B)) (swap h i c)"
      unfolding heap_except_def
    proof (intro ballI impI)
      fix j assume j: "j \<in> {2..count_h (swap h i c)}" and pj: "parent j \<notin> insert c (insert i B)"
      have "j \<noteq> c" using pj d(4) by auto
      moreover have "j \<noteq> i" using pj root j by (auto simp: parent_def)
      moreover have "key h j \<le> key h (parent j)"
        using he j pj by (simp add: heap_except_def)
      ultimately show "key (swap h i c) j \<le> key (swap h i c) (parent j)"
        using pj by (simp add: swap_key[OF len])
    qed
    have "c = 1 \<or> parent c \<in> insert i B" using d(4) by simp
    with 2(7) he0 have he1: "heap_except (insert i B - {c}) h1" by blast
    have "insert i B - {c} = insert i (B - {c})" using d(1) by auto
    with he1 have he2: "heap_except (insert i (B - {c})) h1" by simp
    have root2: "i = 1 \<or> parent i \<in> B - {c}" using root pi d(1) by auto
    have "heap_except (B - {c} - {i}) h'"
      using 2(10)[rule_format, OF he2 root2] .
    then show "heap_except (B - {i}) h'" by (rule heap_except_mono) auto
  qed
qed

lemma heap_except_empty_but:
  assumes "heap_except {} h" "i \<le> count_h h"
  shows "heap_but i h"
  unfolding heap_but_def
proof (intro conjI ballI impI)
  fix j assume "j \<in> {2..count_h h}" "j \<noteq> i"
  then show "key h j \<le> key h (parent j)" using assms by (simp add: heap_except_def)
next
  fix j assume j: "j \<in> {2..count_h h}" "parent j = i" "2 \<le> i"
  have "key h j \<le> key h i" using assms j by (auto simp: heap_except_def)
  also have "key h i \<le> key h (parent i)" using assms j by (auto simp: heap_except_def)
  finally show "key h j \<le> key h (parent i)" .
qed

lemma float_restores:
  assumes "well_formed h" "1 \<le> i" "i \<le> count_h h"
  shows "\<exists>h'. float h i = Inr h' \<and> well_formed h' \<and> (heap_but i h \<longrightarrow> heap_except {} h')"
proof (rule float_wf_induct[OF assms, where P = "\<lambda>h i h'. heap_but i h \<longrightarrow> heap_except {} h'"],
    goal_cases)
  case (1 h i)
  show ?case
  proof
    assume hb: "heap_but i h"
    show "heap_except {} h"
      unfolding heap_except_def
    proof (intro ballI impI)
      fix j assume j: "j \<in> {2..count_h h}"
      show "key h j \<le> key h (parent j)"
      proof (cases "j = i")
        case True
        then have "parent i \<noteq> 0" using j by (auto simp: parent_def)
        then show ?thesis using 1(4) True by (simp add: float_moves_def)
      next
        case False
        then show ?thesis using hb j by (simp add: heap_but_def)
      qed
    qed
  qed
next
  case (2 h i h1 h')
  let ?p = "parent i"
  from 2(4) have p0: "?p \<noteq> 0" and lt: "key h ?p < key h i" by (simp_all add: float_moves_def)
  have p1: "1 \<le> ?p" "?p \<le> count_h h" "?p < i" "2 \<le> i"
    using p0 2(3) by (auto simp: parent_def)
  have len: "i < length (storage h)" "?p < length (storage h)"
    using wf_lengthD[OF 2(1)] 2(3) p1 by auto
  have cnt1: "count_h h1 = count_h h" using float_props(1)[OF 2(6)] by simp
  show ?case
  proof
    assume hb: "heap_but i h"
    have hb0: "heap_but ?p (swap h i ?p)"
      unfolding heap_but_def
    proof (intro conjI ballI impI)
      fix j assume j: "j \<in> {2..count_h (swap h i ?p)}" and ne: "j \<noteq> ?p"
      show "key (swap h i ?p) j \<le> key (swap h i ?p) (parent j)"
      proof (cases "j = i")
        case True
        then show ?thesis using lt p1 by (simp add: swap_key[OF len])
      next
        case False
        note ji = this
        show ?thesis
        proof (cases "parent j = i")
          case True
          then have "key h j \<le> key h ?p" using hb j p1 by (simp add: heap_but_def)
          then show ?thesis using True ji ne p1 by (simp add: swap_key[OF len])
        next
          case False
          have le: "key h j \<le> key h (parent j)" using hb j ji by (simp add: heap_but_def)
          show ?thesis
          proof (cases "parent j = ?p")
            case True
            then show ?thesis using le lt ji ne p1 by (simp add: swap_key[OF len])
          next
            case False
            then show ?thesis using le ji ne \<open>parent j \<noteq> i\<close> by (simp add: swap_key[OF len])
          qed
        qed
      qed
    next
      fix j assume j: "j \<in> {2..count_h (swap h i ?p)}" and pj: "parent j = ?p" and p2: "2 \<le> ?p"
      have pp: "parent ?p < ?p" using p1 by (simp add: parent_def)
      have ple: "key h ?p \<le> key h (parent ?p)"
        using hb p2 p1 by (simp add: heap_but_def)
      have jp: "j \<noteq> ?p" using pj j by (auto simp: parent_def)
      have "key (swap h i ?p) j \<le> key h ?p"
      proof (cases "j = i")
        case True
        then show ?thesis using p1 by (simp add: swap_key[OF len])
      next
        case False
        then have "key h j \<le> key h (parent j)" using hb j by (simp add: heap_but_def)
        then show ?thesis using False jp pj by (simp add: swap_key[OF len])
      qed
      also note ple
      also have "key h (parent ?p) = key (swap h i ?p) (parent ?p)"
        using pp p1 by (simp add: swap_key[OF len])
      finally show "key (swap h i ?p) j \<le> key (swap h i ?p) (parent ?p)" .
    qed
    with 2(8) have "heap_except {} h1" by simp
    then have "heap_but i h1" using 2(3) cnt1 by (intro heap_except_empty_but) simp_all
    with 2(11) show "heap_except {} h'" by simp
  qed
qed

section \<open>The records of the queue\<close>

lemma live_swap:
  assumes "well_formed h" "1 \<le> i" "i \<le> count_h h" "1 \<le> j" "j \<le> count_h h"
  shows "live (swap h i j) = live h"
proof -
  let ?st = "storage h" and ?c = "count_h h"
  let ?ys = "take ?c (drop 1 ?st)"
  have len: "i < length ?st" "j < length ?st" "?c < length ?st"
    using assms by (auto simp: well_formed_def)
  have ly: "length ?ys = ?c" using len by simp
  have nth: "?ys ! (k - 1) = ?st ! k" if "1 \<le> k" "k \<le> ?c" for k
    using that len by simp
  have e1: "take ?c (drop 1 (?st[i := a, j := b])) = ?ys[i - 1 := a, j - 1 := b]" for a b
    using assms by (simp add: drop_update_swap take_update_swap del: drop_Suc_Cons)
  have "take ?c (drop 1 (?st[i := ?st ! j, j := ?st ! i]))
        = ?ys[i - 1 := ?ys ! (j - 1), j - 1 := ?ys ! (i - 1)]"
    by (simp only: e1 nth[OF assms(2,3)] nth[OF assms(4,5)])
  moreover have "mset (?ys[i - 1 := ?ys ! (j - 1), j - 1 := ?ys ! (i - 1)]) = mset ?ys"
    using assms ly by (intro mset_swap) auto
  ultimately have "mset (take ?c (drop 1 (?st[i := ?st ! j, j := ?st ! i]))) = mset ?ys"
    by simp
  then have "mset (map entry (take ?c (drop 1 (?st[i := ?st ! j, j := ?st ! i]))))
      = mset (map entry ?ys)"
    by (metis mset_map)
  then show ?thesis
    by (simp add: live_def swap_storage[OF len(1,2)])
qed

lemma sink_live:
  assumes "well_formed h" "1 \<le> i" "sink h i = Inr h'"
  shows "live h' = live h"
proof -
  have "\<exists>h'. sink h i = Inr h' \<and> well_formed h' \<and> live h' = live h"
  proof (rule sink_wf_induct[OF assms(1,2), where P = "\<lambda>h i h'. live h' = live h"], goal_cases)
    case (1 h i)
    show ?case by simp
  next
    case (2 h i c h1 h')
    note d = sink_choice_SomeD[OF 2(3) 2(2)]
    have "live (swap h i c) = live h"
      using d 2(2) by (intro live_swap[OF 2(1)]) auto
    with 2(7) 2(10) show ?case by simp
  qed
  with assms(3) show ?thesis by auto
qed

lemma float_live:
  assumes "well_formed h" "1 \<le> i" "i \<le> count_h h" "float h i = Inr h'"
  shows "live h' = live h"
proof -
  have "\<exists>h'. float h i = Inr h' \<and> well_formed h' \<and> live h' = live h"
  proof (rule float_wf_induct[OF assms(1,2,3), where P = "\<lambda>h i h'. live h' = live h"], goal_cases)
    case (1 h i)
    show ?case by simp
  next
    case (2 h i h1 h')
    from 2(4) have "parent i \<noteq> 0" by (simp add: float_moves_def)
    then have "1 \<le> parent i" "parent i \<le> count_h h" using 2(3) by (auto simp: parent_def)
    then have "live (swap h i (parent i)) = live h"
      by (intro live_swap[OF 2(1) 2(2) 2(3)])
    with 2(8) 2(11) show ?case by simp
  qed
  with assms(4) show ?thesis by auto
qed

lemma sink_ok:
  assumes "well_formed h" "1 \<le> i"
  shows "\<exists>h'. sink h i = Inr h' \<and> well_formed h' \<and> count_h h' = count_h h \<and>
     size_h h' = size_h h \<and> live h' = live h"
proof -
  from sink_restores[OF assms] obtain h' where "sink h i = Inr h'" "well_formed h'" by blast
  then show ?thesis
    using sink_props(1,2)[of h i h'] sink_live[OF assms] by auto
qed

lemma insert_full:
  assumes "\<not> count_h h < size_h h"
  shows "insert_h h p e = Inl (HeapFull, h)"
  using assms by (simp add: insert_h_def)

lemma insert_ok:
  assumes wf: "well_formed h" and room: "count_h h < size_h h"
  shows "\<exists>h'. insert_h h (Num p) e = Inr h' \<and> well_formed h' \<and> count_h h' = count_h h + 1 \<and>
     size_h h' = size_h h \<and> live h' = add_mset (p, e) (live h) \<and>
     (heap_except {} h \<longrightarrow> heap_except {} h')"
proof -
  let ?c = "count_h h" and ?st = "storage h"
  let ?v = "Rec (Some (Num p)) e"
  define h2 where "h2 = h\<lparr>count_h := ?c + 1, storage := ?st[?c + 1 := ?v]\<rparr>"
  have len: "length ?st = size_h h + 1" using wf by (simp add: well_formed_def)
  have ins: "insert_h h (Num p) e = float h2 (?c + 1)"
    using room len by (simp add: insert_h_def h2_def put_def Let_def)
  have g2: "get (storage h2) j = (if j = ?c + 1 then ?v else get ?st j)" for j
    using room len by (auto simp: h2_def get_def)
  have wf2: "well_formed h2"
    using wf room g2 by (auto simp: well_formed_def numeric_def h2_def)
  have c2: "count_h h2 = ?c + 1" "size_h h2 = size_h h" by (simp_all add: h2_def)
  have "take (Suc ?c) (drop 1 (?st[?c + 1 := ?v])) = take ?c (drop 1 ?st) @ [?v]"
    using room len by (simp add: drop_update_swap take_Suc_conv_app_nth del: drop_Suc_Cons)
  then have live2: "live h2 = add_mset (p, e) (live h)"
    by (simp add: live_def h2_def entry_def)
  have k2: "key h2 j = key h j" if "j \<noteq> ?c + 1" for j
    using that g2 by (simp add: key_def)
  have hb: "heap_but (?c + 1) h2" if he: "heap_except {} h"
    unfolding heap_but_def
  proof (intro conjI ballI impI)
    fix j assume j: "j \<in> {2..count_h h2}" "j \<noteq> ?c + 1"
    then have "j \<in> {2..?c}" "parent j \<noteq> ?c + 1" by (auto simp: c2 parent_def)
    then show "key h2 j \<le> key h2 (parent j)"
      using he j by (simp add: k2 heap_except_def)
  next
    fix j assume "j \<in> {2..count_h h2}" "parent j = ?c + 1"
    then have False by (auto simp: c2 parent_def)
    then show "key h2 j \<le> key h2 (parent (?c + 1))" ..
  qed
  from float_restores[OF wf2, of "?c + 1"] c2
  obtain h' where h': "float h2 (?c + 1) = Inr h'" "well_formed h'"
    "heap_but (?c + 1) h2 \<longrightarrow> heap_except {} h'" by auto
  have "live h' = live h2" using float_live[OF wf2 _ _ h'(1)] c2 by simp
  then show ?thesis
    using ins h' hb float_props(1,2)[OF h'(1)] c2 live2 by auto
qed

lemma root_max:
  assumes "heap_except {} h" "1 \<le> j" "j \<le> count_h h"
  shows "key h j \<le> key h 1"
  using assms(2,3)
proof (induction j rule: less_induct)
  case (less j)
  show ?case
  proof (cases "j = 1")
    case True
    then show ?thesis by simp
  next
    case False
    then have j2: "j \<in> {2..count_h h}" using less.prems by simp
    then have "key h j \<le> key h (parent j)" using assms(1) by (simp add: heap_except_def)
    also have "key h (parent j) \<le> key h 1"
      using j2 by (intro less.IH) (auto simp: parent_def)
    finally show ?thesis .
  qed
qed

lemma live_root_max:
  assumes "well_formed h" "heap_except {} h" "x \<in># live h"
  shows "fst x \<le> key h 1"
proof -
  let ?ys = "take (count_h h) (drop 1 (storage h))"
  have len: "count_h h < length (storage h)" using assms(1) by (simp add: well_formed_def)
  from assms(3) obtain k where k: "k < length ?ys" "x = entry (?ys ! k)"
    by (auto simp: live_def in_set_conv_nth)
  then have "k < count_h h" by simp
  then have "?ys ! k = get (storage h) (k + 1)" using len by (simp add: get_def)
  then have "fst x = key h (k + 1)" using k by (simp add: key_def)
  then show ?thesis using root_max[OF assms(2), of "k + 1"] \<open>k < count_h h\<close> by simp
qed

lemma element_at_wf:
  assumes "well_formed h" "1 \<le> i" "i \<le> count_h h"
  shows "element_at h i = Inr (snd (entry (get (storage h) i)))"
  using wf_numericD[OF assms]
  by (auto simp: numeric_Rec element_at_def entry_def)

lemma removeMax_empty:
  assumes "count_h h = 0"
  shows "removeMax h = Inr (None, h)"
  using assms by (simp add: removeMax_def)

lemma live_empty: "count_h h = 0 \<Longrightarrow> live h = {#}"
  by (simp add: live_def)

lemma removeMax_ok:
  assumes wf: "well_formed h" and pos: "0 < count_h h"
  shows "\<exists>x h'. removeMax h = Inr (x, h') \<and> well_formed h' \<and> count_h h' = count_h h - 1 \<and>
     size_h h' = size_h h \<and> live h = add_mset (key h 1, x) (live h') \<and>
     (heap_except {} h \<longrightarrow> heap_except {} h')"
proof (cases "count_h h = 1")
  case True
  let ?x = "snd (entry (get (storage h) 1))"
  define h' where "h' = h\<lparr>count_h := 0, storage := (storage h)[1 := Null]\<rparr>"
  have len: "length (storage h) = size_h h + 1" "1 \<le> size_h h"
    using wf True by (simp_all add: well_formed_def)
  have g1: "get (storage (h\<lparr>count_h := 0\<rparr>)) 1 = get (storage h) 1" by simp
  have el: "element_at (h\<lparr>count_h := 0\<rparr>) 1 = Inr ?x"
    using wf_numericD[OF wf, of 1] True by (auto simp: numeric_Rec element_at_def entry_def)
  have rm: "removeMax h = Inr (?x, h')"
    using True el len by (simp add: removeMax_def h'_def put_def)
  have wf': "well_formed h'" using wf len by (simp add: well_formed_def h'_def)
  have "take 1 (drop 1 (storage h)) = [get (storage h) 1]"
    using len by (simp add: get_def take_Suc_conv_app_nth del: drop_Suc_Cons)
  then have "live h = {#(key h 1, ?x)#}" using True by (simp add: live_def key_def)
  moreover have "live h' = {#}" by (simp add: live_def h'_def)
  moreover have "heap_except {} h'" by (simp add: heap_except_def h'_def)
  ultimately show ?thesis using rm wf' True by (simp add: h'_def)
next
  case False
  let ?c = "count_h h"
  let ?x = "snd (entry (get (storage h) 1))"
  have c2: "2 \<le> ?c" using False pos by simp
  have len: "length (storage h) = size_h h + 1" "?c \<le> size_h h"
    using wf by (simp_all add: well_formed_def)
  have l1: "1 < length (storage h)" "?c < length (storage h)" using len c2 by simp_all
  define h1 where "h1 = swap h 1 ?c"
  define h3 where "h3 = h1\<lparr>storage := (storage h1)[?c := Null], count_h := ?c - 1\<rparr>"
  have wf1: "well_formed h1" unfolding h1_def using c2 by (intro swap_wf[OF wf]) simp_all
  have c1: "count_h h1 = ?c" "size_h h1 = size_h h" "length (storage h1) = length (storage h)"
    using swap_length[OF l1] by (simp_all add: h1_def)
  have g1: "get (storage h1) k = (if k = ?c then get (storage h) 1
      else if k = 1 then get (storage h) ?c else get (storage h) k)" for k
    unfolding h1_def using swap_get[OF l1, of k] by simp
  have el: "element_at h1 ?c = Inr ?x"
    using element_at_wf[OF wf1, of ?c] c1 c2 g1 by simp
  have g3: "get (storage h3) k = (if k = ?c then Null else get (storage h1) k)" for k
    using c1 l1 by (auto simp: h3_def get_def)
  have wf3: "well_formed h3"
    using wf1 c1 c2 g3 by (auto simp: well_formed_def h3_def)
  have cnt3: "count_h h3 = ?c - 1" "size_h h3 = size_h h" by (simp_all add: h3_def c1)
  from sink_restores[OF wf3, of 1] obtain h4 where
    h4: "sink h3 1 = Inr h4" "well_formed h4"
      "\<forall>B. heap_except (insert 1 B) h3 \<longrightarrow> heap_except (B - {1}) h4" by auto
  have rm: "removeMax h = Inr (?x, h4)"
    using False pos el[unfolded h1_def] h4(1)[unfolded h3_def h1_def] c1[unfolded h1_def] l1
    by (simp add: removeMax_def Let_def put_def)
  have "live h1 = live h" unfolding h1_def using c2 by (intro live_swap[OF wf]) simp_all
  moreover have "take ?c (drop 1 (storage h1))
      = take (?c - 1) (drop 1 (storage h1)) @ [get (storage h1) ?c]"
    using c1 l1 c2 take_Suc_conv_app_nth[of "?c - 1" "drop 1 (storage h1)"]
    by (simp add: get_def del: drop_Suc_Cons)
  moreover have "take (?c - 1) (drop 1 ((storage h1)[?c := Null]))
      = take (?c - 1) (drop 1 (storage h1))"
    using c2 by (simp add: drop_update_swap del: drop_Suc_Cons)
  ultimately have "live h = add_mset (key h 1, ?x) (live h3)"
    using g1[of ?c] c1 by (simp add: live_def h3_def key_def)
  moreover have "live h4 = live h3" using sink_live[OF wf3 _ h4(1)] by simp
  moreover have "heap_except {} h4" if he: "heap_except {} h"
  proof -
    have "heap_except (insert 1 {}) h3"
      unfolding heap_except_def
    proof (intro ballI impI)
      fix j assume j: "j \<in> {2..count_h h3}" "parent j \<notin> {1}"
      then have jj: "j \<noteq> 1" "j \<noteq> ?c" "parent j \<noteq> 1" "parent j \<noteq> ?c" "j \<in> {2..?c}"
        by (auto simp: cnt3 parent_def)
      then have "key h3 j = key h j" "key h3 (parent j) = key h (parent j)"
        by (simp_all add: key_def g3 g1)
      then show "key h3 j \<le> key h3 (parent j)" using he jj by (simp add: heap_except_def)
    qed
    with h4(3) show ?thesis by fastforce
  qed
  ultimately show ?thesis
    using rm h4(2) sink_props(1,2)[OF h4(1)] cnt3 by auto
qed

section \<open>Whole operations\<close>

lemma sort_ok:
  assumes "well_formed h"
  shows "\<exists>st h'. sort_h h = Inr (st, h') \<and> well_formed h' \<and> count_h h' = 0 \<and>
     size_h h' = size_h h \<and> st = storage h'"
  using assms
proof (induction h rule: sort_h.induct)
  case (1 h)
  note wf = \<open>well_formed h\<close>
  show ?case
  proof (cases "0 < count_h h")
    case False
    then show ?thesis using wf by (subst sort_h.simps) simp
  next
    case True
    let ?c = "count_h h"
    define h1 where "h1 = swap h 1 ?c"
    define h2 where "h2 = h1\<lparr>count_h := count_h h1 - 1\<rparr>"
    have wf1: "well_formed h1" unfolding h1_def using True by (intro swap_wf[OF wf]) simp_all
    have c1: "count_h h1 = ?c" "size_h h1 = size_h h" by (simp_all add: h1_def)
    have wf2: "well_formed h2" using wf1 c1 by (auto simp: well_formed_def h2_def)
    have c2: "count_h h2 = ?c - 1" "size_h h2 = size_h h" by (simp_all add: h2_def c1)
    from sink_ok[OF wf2, of 1] obtain h3 where
      h3: "sink h2 1 = Inr h3" "well_formed h3" "size_h h3 = size_h h2" by auto
    from "1.IH"[OF True h1_def h2_def h3(1) h3(2)] obtain st h' where
      r: "sort_h h3 = Inr (st, h')" "well_formed h'" "count_h h' = 0" "size_h h' = size_h h3"
         "st = storage h'" by blast
    have "sort_h h = sort_h h3"
      using True h3(1) by (subst sort_h.simps) (simp add: Let_def h1_def h2_def)
    then show ?thesis using r h3(3) c2 by simp
  qed
qed

lemma buildheap_from_ok:
  assumes "well_formed h" "1 \<le> i"
  shows "\<exists>h'. buildheap_from h i = Inr h' \<and> well_formed h' \<and> count_h h' = count_h h \<and>
     size_h h' = size_h h \<and> live h' = live h"
  using assms
proof (induction h i rule: buildheap_from.induct)
  case (1 h i)
  note wf = \<open>well_formed h\<close> and i = \<open>1 \<le> i\<close>
  show ?case
  proof (cases "i \<le> size_h h")
    case False
    then show ?thesis using wf by (subst buildheap_from.simps) simp
  next
    case True
    from sink_ok[OF wf i] obtain h1 where
      h1: "sink h i = Inr h1" "well_formed h1" "count_h h1 = count_h h"
        "size_h h1 = size_h h" "live h1 = live h" by blast
    from "1.IH"[OF True h1(1) h1(2)] obtain h' where
      r: "buildheap_from h1 (i + 1) = Inr h'" "well_formed h'" "count_h h' = count_h h1"
         "size_h h' = size_h h1" "live h' = live h1" by auto
    have "buildheap_from h i = buildheap_from h1 (i + 1)"
      using True h1(1) by (subst buildheap_from.simps) simp
    then show ?thesis using r h1 by simp
  qed
qed

lemma entry_mk_rec [simp]: "entry (mk_rec (num_pair r)) = r"
  by (simp add: entry_def mk_rec_def num_pair_def)

lemma numeric_mk_rec [simp]: "numeric (mk_rec (num_pair r))"
  by (simp add: numeric_def mk_rec_def num_pair_def)

lemma fromArray_ok:
  "\<exists>h. MaxHeap_fromArray (s0 # map (\<lambda>r. mk_rec (num_pair r)) ps) = Inr h \<and> well_formed h \<and>
     count_h h = length ps \<and> size_h h = length ps \<and> live h = mset ps"
proof -
  let ?h = "\<lparr>storage = s0 # map (\<lambda>r. mk_rec (num_pair r)) ps, size_h = length ps,
    count_h = length ps\<rparr>"
  have wf: "well_formed ?h"
    by (auto simp: well_formed_def get_def nth_Cons split: nat.splits)
  have "live ?h = mset ps" by (simp add: live_def comp_def)
  with buildheap_from_ok[OF wf, of 1] show ?thesis
    by (auto simp: buildheap_def)
qed

lemma empty_wf:
  "well_formed (MaxHeap_empty c)" "count_h (MaxHeap_empty c) = 0" "size_h (MaxHeap_empty c) = c"
  "heap_except {} (MaxHeap_empty c)" "live (MaxHeap_empty c) = {#}"
  by (simp_all add: MaxHeap_empty_def well_formed_def heap_except_def live_def)

lemma insert_all_ok:
  assumes "well_formed h" "count_h h + length ps \<le> size_h h"
  shows "\<exists>h'. insert_all h (map num_pair ps) = Inr h' \<and> well_formed h' \<and>
     count_h h' = count_h h + length ps \<and> size_h h' = size_h h \<and>
     live h' = live h + mset ps \<and> (heap_except {} h \<longrightarrow> heap_except {} h')"
  using assms
proof (induction ps arbitrary: h)
  case Nil
  then show ?case by simp
next
  case (Cons r rs)
  have room: "count_h h < size_h h" using Cons.prems by simp
  from insert_ok[OF Cons.prems(1) room, of "fst r" "snd r"] obtain h1 where
    h1: "insert_h h (Num (fst r)) (snd r) = Inr h1" "well_formed h1" "count_h h1 = count_h h + 1"
      "size_h h1 = size_h h" "live h1 = add_mset r (live h)"
      "heap_except {} h \<longrightarrow> heap_except {} h1" by auto
  have "count_h h1 + length rs \<le> size_h h1" using h1 Cons.prems by simp
  from Cons.IH[OF h1(2) this] obtain h' where
    h': "insert_all h1 (map num_pair rs) = Inr h'" "well_formed h'" "count_h h' = count_h h1 + length rs"
      "size_h h' = size_h h1" "live h' = live h1 + mset rs"
      "heap_except {} h1 \<longrightarrow> heap_except {} h'" by blast
  have hd: "fst (num_pair r) = Num (fst r)" "snd (num_pair r) = snd r"
    by (simp_all add: num_pair_def)
  show ?case using h1 h' hd by simp
qed

lemma drain_sorted:
  assumes "well_formed h" "heap_except {} h" "count_h h = n"
  shows "\<exists>qs h'. drain n h = Inr (map snd qs, h') \<and> mset qs = live h \<and>
     sorted_wrt (\<lambda>a b. fst b \<le> fst a) qs \<and> well_formed h' \<and> count_h h' = 0"
  using assms
proof (induction n arbitrary: h)
  case 0
  then have "live h = {#}" by (simp add: live_empty)
  with 0 show ?case by (intro exI[of _ "[]"]) simp
next
  case (Suc n)
  have pos: "0 < count_h h" using Suc.prems by simp
  from removeMax_ok[OF Suc.prems(1) pos] Suc.prems obtain x h1 where
    h1: "removeMax h = Inr (x, h1)" "well_formed h1" "count_h h1 = n"
      "live h = add_mset (key h 1, x) (live h1)" "heap_except {} h1" by auto
  from Suc.IH[OF h1(2) h1(5) h1(3)] obtain qs h' where
    r: "drain n h1 = Inr (map snd qs, h')" "mset qs = live h1"
      "sorted_wrt (\<lambda>a b. fst b \<le> fst a) qs" "well_formed h'" "count_h h' = 0" by blast
  have "fst q \<le> key h 1" if "q \<in> set qs" for q
  proof -
    have "q \<in># live h" using that r(2) h1(4) by (metis set_mset_mset union_single_eq_member insert_iff set_mset_add_mset_insert)
    then show ?thesis using live_root_max[OF Suc.prems(1,2)] by blast
  qed
  then have "sorted_wrt (\<lambda>a b. fst b \<le> fst a) ((key h 1, x) # qs)" using r(3) by simp
  moreover have "drain (Suc n) h = Inr (map snd ((key h 1, x) # qs), h')"
    using h1(1) r(1) by simp
  moreover have "mset ((key h 1, x) # qs) = live h" using r(2) h1(4) by simp
  ultimately show ?case using r(4,5) by blast
qed

lemma never_full_take: "never_full n c ops \<Longrightarrow> never_full n c (take k ops)"
proof (induction ops arbitrary: n k)
  case Nil
  then show ?case by simp
next
  case (Cons x xs)
  show ?case
  proof (cases k)
    case 0
    then show ?thesis by simp
  next
    case (Suc k')
    with Cons show ?thesis by (cases x) auto
  qed
qed

lemma NaN_free_take: "NaN_free ops \<Longrightarrow> NaN_free (take k ops)"
proof (induction ops arbitrary: k)
  case Nil
  then show ?case by simp
next
  case (Cons x xs)
  show ?case
  proof (cases k)
    case 0
    then show ?thesis by simp
  next
    case (Suc k')
    with Cons show ?thesis by (cases x) auto
  qed
qed

lemma run_ok:
  assumes "well_formed h" "heap_except {} h" "never_full (count_h h) (size_h h) ops"
    "NaN_free ops"
  shows "\<exists>h'. run h ops = Inr h' \<and> well_formed h' \<and> heap_except {} h' \<and> size_h h' = size_h h"
  using assms
proof (induction ops arbitrary: h)
  case Nil
  then show ?case by simp
next
  case (Cons x xs)
  note wf = Cons.prems(1) and he = Cons.prems(2) and nf = Cons.prems(3)
  have free: "NaN_free xs" using Cons.prems(4) by (cases x) simp_all
  have "\<exists>h1. apply_op h x = Inr h1 \<and> well_formed h1 \<and> heap_except {} h1 \<and>
      size_h h1 = size_h h \<and> never_full (count_h h1) (size_h h1) xs"
  proof (cases x)
    case (Insert p e)
    with nf have room: "count_h h < size_h h" by simp
    from Insert Cons.prems(4) obtain v where v: "p = Num v" by (cases p) simp_all
    from insert_ok[OF wf room, of v e] he nf Insert v show ?thesis by auto
  next
    case RemoveMax
    show ?thesis
    proof (cases "count_h h = 0")
      case True
      then show ?thesis using RemoveMax wf he nf by (simp add: removeMax_empty)
    next
      case False
      then have "0 < count_h h" by simp
      from removeMax_ok[OF wf this] he nf RemoveMax show ?thesis by auto
    qed
  next
    case Count
    then show ?thesis using wf he nf by simp
  next
    case Sort
    from sort_ok[OF wf] obtain st h1 where
      s: "sort_h h = Inr (st, h1)" "well_formed h1" "count_h h1 = 0" "size_h h1 = size_h h"
      by blast
    have "heap_except {} h1" using s(3) by (simp add: heap_except_def)
    then show ?thesis using Sort s nf by simp
  qed
  then obtain h1 where h1: "apply_op h x = Inr h1" "well_formed h1" "heap_except {} h1"
    "size_h h1 = size_h h" "never_full (count_h h1) (size_h h1) xs" by blast
  from Cons.IH[OF h1(2,3,5) free] h1(1,4) show ?case by auto
qed

lemma insert_shaped:
  assumes sh: "shaped h" and room: "count_h h < size_h h"
  shows "\<exists>h'. insert_h h p e = Inr h' \<and> shaped h' \<and> count_h h' = count_h h + 1 \<and>
     size_h h' = size_h h"
proof -
  let ?c = "count_h h" and ?st = "storage h"
  let ?v = "Rec (Some p) e"
  define h2 where "h2 = h\<lparr>count_h := ?c + 1, storage := ?st[?c + 1 := ?v]\<rparr>"
  have len: "length ?st = size_h h + 1" using sh by (simp add: shaped_def)
  have ins: "insert_h h p e = float h2 (?c + 1)"
    using room len by (simp add: insert_h_def h2_def put_def Let_def)
  have g2: "get (storage h2) j = (if j = ?c + 1 then ?v else get ?st j)" for j
    using room len by (auto simp: h2_def get_def)
  have sh2: "shaped h2"
    using sh room g2 by (auto simp: shaped_def is_rec_def h2_def)
  have c2: "count_h h2 = ?c + 1" "size_h h2 = size_h h" by (simp_all add: h2_def)
  from float_shaped_ok[OF sh2, of "?c + 1"] c2 ins show ?thesis by auto
qed

lemma removeMax_shaped:
  assumes sh: "shaped h" and pos: "0 < count_h h"
  shows "\<exists>x h'. removeMax h = Inr (x, h') \<and> shaped h' \<and> count_h h' = count_h h - 1 \<and>
     size_h h' = size_h h"
proof (cases "count_h h = 1")
  case True
  from shaped_recD[OF sh, of 1] True obtain p x where r: "get (storage h) 1 = Rec p x"
    by (auto simp: is_rec_Rec)
  define h' where "h' = h\<lparr>count_h := 0, storage := (storage h)[1 := Null]\<rparr>"
  have len: "length (storage h) = size_h h + 1" "1 \<le> size_h h"
    using sh True by (simp_all add: shaped_def)
  have "removeMax h = Inr (x, h')"
    using True r len by (simp add: removeMax_def h'_def put_def element_at_def)
  moreover have "shaped h'" using sh len by (simp add: shaped_def h'_def)
  ultimately show ?thesis using True by (simp add: h'_def)
next
  case False
  let ?c = "count_h h"
  have c2: "2 \<le> ?c" using False pos by simp
  have len: "length (storage h) = size_h h + 1" "?c \<le> size_h h"
    using sh by (simp_all add: shaped_def)
  have l1: "1 < length (storage h)" "?c < length (storage h)" using len c2 by simp_all
  from shaped_recD[OF sh, of 1] c2 obtain p x where r: "get (storage h) 1 = Rec p x"
    by (auto simp: is_rec_Rec)
  define h1 where "h1 = swap h 1 ?c"
  define h3 where "h3 = h1\<lparr>storage := (storage h1)[?c := Null], count_h := ?c - 1\<rparr>"
  have sh1: "shaped h1" unfolding h1_def using c2 by (intro swap_shaped[OF sh]) simp_all
  have c1: "count_h h1 = ?c" "size_h h1 = size_h h" "length (storage h1) = length (storage h)"
    using swap_length[OF l1] by (simp_all add: h1_def)
  have g1: "get (storage h1) k = (if k = ?c then get (storage h) 1
      else if k = 1 then get (storage h) ?c else get (storage h) k)" for k
    unfolding h1_def using swap_get[OF l1, of k] by simp
  have el: "element_at h1 ?c = Inr x"
    using g1[of ?c] r by (simp add: element_at_def)
  have g3: "get (storage h3) k = (if k = ?c then Null else get (storage h1) k)" for k
    using c1 l1 by (auto simp: h3_def get_def)
  have sh3: "shaped h3"
    using sh1 c1 c2 g3 by (auto simp: shaped_def h3_def)
  have cnt3: "count_h h3 = ?c - 1" "size_h h3 = size_h h" by (simp_all add: h3_def c1)
  from sink_shaped_ok[OF sh3, of 1] obtain h4 where
    h4: "sink h3 1 = Inr h4" "shaped h4" "count_h h4 = count_h h3" "size_h h4 = size_h h3"
    by auto
  have rm: "removeMax h = Inr (x, h4)"
    using False pos el[unfolded h1_def] h4(1)[unfolded h3_def h1_def] c1[unfolded h1_def] l1
    by (simp add: removeMax_def Let_def put_def)
  show ?thesis using rm h4 cnt3 by auto
qed

lemma sort_shaped:
  assumes "shaped h"
  shows "\<exists>st h'. sort_h h = Inr (st, h') \<and> shaped h' \<and> count_h h' = 0 \<and>
     size_h h' = size_h h \<and> st = storage h'"
  using assms
proof (induction h rule: sort_h.induct)
  case (1 h)
  note sh = \<open>shaped h\<close>
  show ?case
  proof (cases "0 < count_h h")
    case False
    then show ?thesis using sh by (subst sort_h.simps) simp
  next
    case True
    let ?c = "count_h h"
    define h1 where "h1 = swap h 1 ?c"
    define h2 where "h2 = h1\<lparr>count_h := count_h h1 - 1\<rparr>"
    have sh1: "shaped h1" unfolding h1_def using True by (intro swap_shaped[OF sh]) simp_all
    have c1: "count_h h1 = ?c" "size_h h1 = size_h h" by (simp_all add: h1_def)
    have sh2: "shaped h2" using sh1 c1 by (auto simp: shaped_def h2_def)
    have c2: "count_h h2 = ?c - 1" "size_h h2 = size_h h" by (simp_all add: h2_def c1)
    from sink_shaped_ok[OF sh2, of 1] obtain h3 where
      h3: "sink h2 1 = Inr h3" "shaped h3" "size_h h3 = size_h h2" by auto
    from "1.IH"[OF True h1_def h2_def h3(1) h3(2)] obtain st h' where
      r: "sort_h h3 = Inr (st, h')" "shaped h'" "count_h h' = 0" "size_h h' = size_h h3"
         "st = storage h'" by blast
    have "sort_h h = sort_h h3"
      using True h3(1) by (subst sort_h.simps) (simp add: Let_def h1_def h2_def)
    then show ?thesis using r h3(3) c2 by simp
  qed
qed

lemma buildheap_from_shaped:
  assumes "shaped h" "1 \<le> i"
  shows "\<exists>h'. buildheap_from h i = Inr h' \<and> shaped h' \<and> count_h h' = count_h h \<and>
     size_h h' = size_h h"
  using assms
proof (induction h i rule: buildheap_from.induct)
  case (1 h i)
  note sh = \<open>shaped h\<close> and i = \<open>1 \<le> i\<close>
  show ?case
  proof (cases "i \<le> size_h h")
    case False
    then show ?thesis using sh by (subst buildheap_from.simps) simp
  next
    case True
    from sink_shaped_ok[OF sh i] obtain h1 where
      h1: "sink h i = Inr h1" "shaped h1" "count_h h1 = count_h h"
        "size_h h1 = size_h h" by blast
    from "1.IH"[OF True h1(1) h1(2)] obtain h' where
      r: "buildheap_from h1 (i + 1) = Inr h'" "shaped h'" "count_h h' = count_h h1"
         "size_h h' = size_h h1" by auto
    have "buildheap_from h i = buildheap_from h1 (i + 1)"
      using True h1(1) by (subst buildheap_from.simps) simp
    then show ?thesis using r h1 by simp
  qed
qed

lemma fromArray_shaped:
  "\<exists>h. MaxHeap_fromArray (s0 # map mk_rec ps) = Inr h \<and> shaped h \<and>
     count_h h = length ps \<and> size_h h = length ps"
proof -
  let ?h = "\<lparr>storage = s0 # map mk_rec ps, size_h = length ps, count_h = length ps\<rparr>"
  have "shaped ?h"
    by (auto simp: shaped_def get_def nth_Cons is_rec_def mk_rec_def split: nat.splits)
  with buildheap_from_shaped[of ?h 1] show ?thesis
    by (auto simp: buildheap_def)
qed

lemma empty_shaped: "shaped (MaxHeap_empty c)"
  by (simp add: MaxHeap_empty_def shaped_def)

lemma heapsort_ok: "\<exists>st. heapsort (s0 # map mk_rec ps) = Inr st"
proof -
  from fromArray_shaped[of s0 ps] obtain h where
    h: "MaxHeap_fromArray (s0 # map mk_rec ps) = Inr h" "shaped h" by blast
  from sort_shaped[OF h(2)] obtain st h' where "sort_h h = Inr (st, h')" by blast
  with h(1) show ?thesis by (simp add: heapsort_def)
qed

lemma insert_all_shaped:
  assumes "shaped h" "count_h h + length ps \<le> size_h h"
  shows "\<exists>h'. insert_all h ps = Inr h' \<and> shaped h' \<and>
     count_h h' = count_h h + length ps \<and> size_h h' = size_h h"
  using assms
proof (induction ps arbitrary: h)
  case Nil
  then show ?case by simp
next
  case (Cons r rs)
  have room: "count_h h < size_h h" using Cons.prems by simp
  from insert_shaped[OF Cons.prems(1) room, of "fst r" "snd r"] obtain h1 where
    h1: "insert_h h (fst r) (snd r) = Inr h1" "shaped h1" "count_h h1 = count_h h + 1"
      "size_h h1 = size_h h" by auto
  have "count_h h1 + length rs \<le> size_h h1" using h1 Cons.prems by simp
  from Cons.IH[OF h1(2) this] obtain h' where
    h': "insert_all h1 rs = Inr h'" "shaped h'" "count_h h' = count_h h1 + length rs"
      "size_h h' = size_h h1" by blast
  show ?case using h1 h' by simp
qed

lemma apply_op_errors:
  assumes "shaped h"
  shows "(\<exists>h'. apply_op h x = Inr h' \<and> shaped h') \<or>
         (apply_op h x = Inl (HeapFull, h) \<and> count_h h = size_h h)"
proof (cases x)
  case (Insert p e)
  show ?thesis
  proof (cases "count_h h < size_h h")
    case True
    from insert_shaped[OF assms True, of p e] Insert show ?thesis by auto
  next
    case False
    then have "count_h h = size_h h" using assms by (simp add: shaped_def)
    with insert_full[OF False, of p e] Insert show ?thesis by simp
  qed
next
  case RemoveMax
  show ?thesis
  proof (cases "count_h h = 0")
    case True
    then show ?thesis using RemoveMax assms by (simp add: removeMax_empty)
  next
    case False
    then have "0 < count_h h" by simp
    from removeMax_shaped[OF assms this] RemoveMax show ?thesis by auto
  qed
next
  case Count
  then show ?thesis using assms by simp
next
  case Sort
  from sort_shaped[OF assms] Sort show ?thesis by auto
qed

lemma run_errors:
  assumes "shaped h"
  shows "(\<exists>h'. run h ops = Inr h' \<and> shaped h') \<or>
         (\<exists>h'. run h ops = Inl (HeapFull, h') \<and> count_h h' = size_h h')"
  using assms
proof (induction ops arbitrary: h)
  case Nil
  then show ?case by simp
next
  case (Cons x xs)
  from apply_op_errors[OF Cons.prems, of x] show ?case
  proof
    assume "\<exists>h'. apply_op h x = Inr h' \<and> shaped h'"
    then obtain h1 where h1: "apply_op h x = Inr h1" "shaped h1" by blast
    from Cons.IH[OF h1(2)] h1(1) show ?thesis by auto
  next
    assume "apply_op h x = Inl (HeapFull, h) \<and> count_h h = size_h h"
    then show ?thesis by auto
  qed
qed

lemma shaped_only_capacity_errors:
  assumes "shaped h0"
  shows "only_capacity_errors h0"
  unfolding only_capacity_errors_def
proof
  fix ops
  from run_errors[OF assms, of ops]
  show "case run h0 ops of
        Inl (err, h) \<Rightarrow> err = HeapFull \<and> count_h h = size_h h
      | Inr h \<Rightarrow>
          (\<forall>p e. (count_h h = size_h h \<and> insert_h h p e = Inl (HeapFull, h)) \<or>
                 (count_h h < size_h h \<and> (\<exists>h'. insert_h h p e = Inr h')))"
  proof
    assume "\<exists>h'. run h0 ops = Inr h' \<and> shaped h'"
    then obtain h where h: "run h0 ops = Inr h" "shaped h" by blast
    have "(count_h h = size_h h \<and> insert_h h p e = Inl (HeapFull, h)) \<or>
          (count_h h < size_h h \<and> (\<exists>h'. insert_h h p e = Inr h'))" for p e
    proof (cases "count_h h < size_h h")
      case True
      with insert_shaped[OF h(2) True, of p e] show ?thesis by auto
    next
      case False
      then have "count_h h = size_h h" using h(2) by (simp add: shaped_def)
      with insert_full[OF False, of p e] show ?thesis by simp
    qed
    with h(1) show ?thesis by simp
  next
    assume "\<exists>h'. run h0 ops = Inl (HeapFull, h') \<and> count_h h' = size_h h'"
    then show ?thesis by auto
  qed
qed

lemma drain_inserted:
  assumes "length ps \<le> c"
  shows "\<exists>h qs h'. insert_all (MaxHeap_empty c) (map num_pair ps) = Inr h \<and>
     drain (length ps) h = Inr (map snd qs, h') \<and>
     mset qs = mset ps \<and> sorted_wrt (\<lambda>a b. fst b \<le> fst a) qs \<and>
     removeMax h' = Inr (None, h')"
proof -
  have "count_h (MaxHeap_empty c) + length ps \<le> size_h (MaxHeap_empty c)"
    using assms by (simp add: empty_wf)
  from insert_all_ok[OF empty_wf(1) this] obtain h where
    h: "insert_all (MaxHeap_empty c) (map num_pair ps) = Inr h" "well_formed h"
      "count_h h = length ps" "live h = mset ps" "heap_except {} h"
    by (auto simp: empty_wf)
  from drain_sorted[OF h(2) h(5) h(3)] obtain qs h' where
    d: "drain (length ps) h = Inr (map snd qs, h')" "mset qs = live h"
      "sorted_wrt (\<lambda>a b. fst b \<le> fst a) qs" "count_h h' = 0" by blast
  have "removeMax h' = Inr (None, h')" using d(4) by (rule removeMax_empty)
  with h d show ?thesis by auto
qed

lemma num_pair_int_of:
  assumes "fst r \<noteq> NaN"
  shows "num_pair (int_of (fst r), snd r) = r"
  using assms by (cases r, cases "fst r") (simp_all add: num_pair_def int_of_def)

section \<open>Where a floated record ends\<close>

lemma blocked_less: "blocked h b i \<Longrightarrow> 1 \<le> b \<and> b < i"
proof (induction h b i rule: blocked.induct)
  case (1 h b i)
  from "1.prems" have p0: "parent i \<noteq> 0" and d: "parent i = b \<or> blocked h b (parent i)"
    by (subst (asm) blocked.simps, simp split: if_splits)+
  have "parent i < i" using p0 by (simp add: parent_def)
  with d "1.IH" p0 show ?case by auto
qed

lemma blocked_cong:
  assumes "\<And>j. j \<le> i \<Longrightarrow> key h' j = key h j"
  shows "blocked h' b i = blocked h b i"
  using assms
proof (induction h b i rule: blocked.induct)
  case (1 h b i)
  show ?case
  proof (cases "parent i = 0")
    case True
    then show ?thesis by (subst blocked.simps, subst (2) blocked.simps) simp
  next
    case False
    then have pi: "parent i < i" by (simp add: parent_def)
    have IH: "blocked h' b (parent i) = blocked h b (parent i)"
      using "1.IH"[OF False] "1.prems" pi by simp
    show ?thesis
    proof (cases "b \<le> i")
      case True
      then show ?thesis
        using False IH "1.prems"[of i] "1.prems"[of b]
        by (subst blocked.simps, subst (2) blocked.simps) simp
    next
      case False
      then have "\<not> blocked h' b i" "\<not> blocked h b i"
        using blocked_less[of h' b i] blocked_less[of h b i] by auto
      then show ?thesis by simp
    qed
  qed
qed

lemma climb_cong:
  assumes "\<And>j. j < i \<Longrightarrow> key h' j = key h j"
  shows "climb h' k i = climb h k i"
  using assms
proof (induction h k i rule: climb.induct)
  case (1 h k i)
  show ?case
  proof (cases "parent i \<noteq> 0 \<and> key h (parent i) < k")
    case True
    then have pi: "parent i < i" by (auto simp: parent_def)
    have "climb h' k (parent i) = climb h k (parent i)"
      using "1.IH"[OF True] "1.prems" pi by simp
    then show ?thesis
      using True "1.prems"[OF pi] by (subst climb.simps, subst (2) climb.simps) simp
  next
    case False
    then have "parent i \<noteq> 0 \<Longrightarrow> parent i < i" by (simp add: parent_def)
    then show ?thesis
      using False "1.prems"[of "parent i"] by (subst climb.simps, subst (2) climb.simps) auto
  qed
qed

lemma climb_le: "climb h k i \<le> i"
proof (induction h k i rule: climb.induct)
  case (1 h k i)
  show ?case
  proof (cases "parent i \<noteq> 0 \<and> key h (parent i) < k")
    case True
    then have "parent i < i" by (auto simp: parent_def)
    with "1.IH"[OF True] True show ?thesis by (subst climb.simps) simp
  next
    case False
    then show ?thesis by (subst climb.simps) auto
  qed
qed

lemma float_frame_blocked:
  assumes "well_formed h" "1 \<le> i" "i \<le> count_h h"
  shows "\<exists>h'. float h i = Inr h' \<and> well_formed h' \<and>
     (\<forall>b. blocked h b i \<longrightarrow> (\<forall>j \<le> b. get (storage h') j = get (storage h) j) \<and> blocked h' b i)"
proof (rule float_wf_induct[OF assms, where P = "\<lambda>h i h'.
     \<forall>b. blocked h b i \<longrightarrow> (\<forall>j \<le> b. get (storage h') j = get (storage h) j) \<and> blocked h' b i"],
    goal_cases)
  case (1 h i)
  show ?case by simp
next
  case (2 h i h1 h')
  let ?p = "parent i"
  let ?h0 = "swap h i ?p"
  from 2(4) have p0: "?p \<noteq> 0" and lt: "key h ?p < key h i" by (simp_all add: float_moves_def)
  have p1: "?p \<le> count_h h" "?p < i" using p0 2(3) by (auto simp: parent_def)
  have len: "i < length (storage h)" "?p < length (storage h)"
    using wf_lengthD[OF 2(1)] 2(3) p1 by auto
  show ?case
  proof (intro allI impI)
    fix b assume bl: "blocked h b i"
    then have le: "key h i \<le> key h b" and d: "?p = b \<or> blocked h b ?p"
      by (subst (asm) blocked.simps, simp split: if_splits)+
    from le lt d have blp: "blocked h b ?p" by auto
    have bp: "1 \<le> b" "b < ?p" using blocked_less[OF blp] by simp_all
    from blp have pp0: "parent ?p \<noteq> 0" and d2: "parent ?p = b \<or> blocked h b (parent ?p)"
      by (subst (asm) blocked.simps, simp split: if_splits)+
    have ppl: "parent ?p < ?p" using pp0 by (simp add: parent_def)
    have "blocked ?h0 b (parent ?p) = blocked h b (parent ?p)"
      using ppl p1 by (intro blocked_cong) (simp add: swap_key[OF len])
    with d2 le bp p1 pp0 have bl0: "blocked ?h0 b ?p"
      by (subst blocked.simps) (simp add: swap_key[OF len])
    from 2(8) bl0 have f1: "\<forall>j \<le> b. get (storage h1) j = get (storage ?h0) j"
      and bl1: "blocked h1 b ?p" by blast+
    have k1i: "key h1 i = key h ?p"
      using float_props(4)[OF 2(6) p1(2)] p1 by (simp add: key_def swap_get[OF len])
    have k1b: "key h1 b = key h b"
      using f1 bp p1 by (simp add: key_def swap_get[OF len])
    have bl1i: "blocked h1 b i"
      using bl1 p0 k1i k1b lt le by (subst blocked.simps) simp
    from 2(11) bl1i have f2: "\<forall>j \<le> b. get (storage h') j = get (storage h1) j"
      and bl': "blocked h' b i" by blast+
    have "get (storage h') j = get (storage h) j" if "j \<le> b" for j
      using that f1 f2 bp p1 by (simp add: swap_get[OF len])
    with bl' show "(\<forall>j \<le> b. get (storage h') j = get (storage h) j) \<and> blocked h' b i"
      by simp
  qed
qed

lemma float_final_position:
  assumes "well_formed h" "1 \<le> i" "i \<le> count_h h"
  shows "\<exists>h'. float h i = Inr h' \<and> well_formed h' \<and>
     (get (storage h') (climb h (key h i) i) = get (storage h) i \<and>
      (climb h (key h i) i \<noteq> i \<longrightarrow> blocked h' (climb h (key h i) i) i))"
proof (rule float_wf_induct[OF assms, where P = "\<lambda>h i h'.
     get (storage h') (climb h (key h i) i) = get (storage h) i \<and>
      (climb h (key h i) i \<noteq> i \<longrightarrow> blocked h' (climb h (key h i) i) i)"], goal_cases)
  case (1 h i)
  then have "climb h (key h i) i = i"
    by (subst climb.simps) (auto simp: float_moves_def)
  then show ?case by simp
next
  case (2 h i h1 h')
  let ?p = "parent i"
  let ?h0 = "swap h i ?p"
  let ?c = "climb h (key h i) i"
  from 2(4) have p0: "?p \<noteq> 0" and lt: "key h ?p < key h i" by (simp_all add: float_moves_def)
  have p1: "?p \<le> count_h h" "?p < i" "1 \<le> ?p" using p0 2(3) by (auto simp: parent_def)
  have len: "i < length (storage h)" "?p < length (storage h)"
    using wf_lengthD[OF 2(1)] 2(3) p1 by auto
  have c1: "?c = climb h (key h i) ?p" using p0 lt by (subst climb.simps) simp
  also have "\<dots> = climb ?h0 (key h i) ?p"
    using p1 by (intro climb_cong[symmetric]) (simp add: swap_key[OF len])
  finally have c0: "?c = climb ?h0 (key ?h0 ?p) ?p" using p1 by (simp add: swap_key[OF len])
  have cle: "?c \<le> ?p" using c1 climb_le[of h "key h i" ?p] by simp
  from 2(8) c0 have g1: "get (storage h1) ?c = get (storage ?h0) ?p"
    and b1: "?c \<noteq> ?p \<longrightarrow> blocked h1 ?c ?p" by simp_all
  have g1': "get (storage h1) ?c = get (storage h) i"
    using g1 p1 by (simp add: swap_get[OF len])
  have k1i: "key h1 i = key h ?p"
    using float_props(4)[OF 2(6) p1(2)] p1 by (simp add: key_def swap_get[OF len])
  have k1c: "key h1 ?c = key h i" using g1' by (simp add: key_def)
  have bl1: "blocked h1 ?c i"
    using b1 p0 k1i k1c lt by (subst blocked.simps) auto
  have cnt1: "count_h h1 = count_h h" using float_props(1)[OF 2(6)] by simp
  from float_frame_blocked[OF 2(7) 2(2)] cnt1 2(3) 2(9) bl1
  have "get (storage h') ?c = get (storage h1) ?c" "blocked h' ?c i" by auto
  with g1' show ?case by simp
qed

section \<open>The claims\<close>

text \<open>
  Claim C1: for every 1-indexed array of records, \<open>heapsort(array)\<close> leaves
  \<open>array[1..n]\<close> sorted in ascending order of priority, as a permutation of the original
  records.

  The code does not do this. On the array of priorities 2, 1, 3, 4 the call returns with
  the priorities 1, 2, 4, 3 in the cells 1 to 4: the records are the original ones, but the
  last two are out of order. The construction establishes no heap (see C2), so the first
  step of \<open>sort\<close> moves a root that is not the maximum to the end of the array.
\<close>

theorem heapsort_leaves_array_unsorted:
  "heapsort (array_of [2, 1, 3, 4]) = Inr (array_of [1, 2, 4, 3])"
  by code_simp

text \<open>
  Claim C2: constructing a heap from an array adopts the array as storage, sets capacity
  and count to \<open>length - 1\<close>, and establishes the heap-order invariant over the cells
  \<open>1..count\<close>, by sinking every node from the last internal node up to the root.

  The counters are set as claimed, but \<open>_buildheap\<close> sinks the nodes in the order
  \<open>1, 2, ..., size\<close>, the root first. On the priorities 2, 1, 3, 4 it leaves 3, 4, 2, 1:
  the root holds priority 3 and its left child, at index 2, priority 4.
\<close>

theorem buildheap_breaks_heap_order:
  "MaxHeap_fromArray (array_of [2, 1, 3, 4])
     = Inr \<lparr>storage = array_of [3, 4, 2, 1], size_h = 4, count_h = 4\<rparr>"
  by code_simp

text \<open>
  Claim C3: for every sequence of \<open>insert\<close> and \<open>removeMax\<close> on an initially empty heap
  that never attempts an \<open>insert\<close> while \<open>count = capacity\<close>, after each operation the
  heap-order invariant holds: \<open>storage[parent(i)].priority >= storage[i].priority\<close> for every
  \<open>i\<close> with \<open>1 < i \<le> count\<close>.

  This fails when a priority is NaN, a number that \<open>insert\<close> accepts without a check and
  that compares false with everything. Inserting the priorities 9, NaN, 5, 100 into an empty
  heap of capacity 4 leaves them in the cells 1 to 4 in that order, no float-up moving
  anything: the comparison of the root 9 with its child NaN is false, and so is that of NaN
  with its child 100.
\<close>

theorem heap_order_fails_with_NaN:
  "never_full 0 4 [Insert (Num 9) (Some ''a''), Insert NaN (Some ''n''),
                   Insert (Num 5) (Some ''b''), Insert (Num 100) (Some ''c'')] \<and>
   run (MaxHeap_empty 4) [Insert (Num 9) (Some ''a''), Insert NaN (Some ''n''),
                          Insert (Num 5) (Some ''b''), Insert (Num 100) (Some ''c'')]
     = Inr \<lparr>storage = [Null, Rec (Some (Num 9)) (Some ''a''), Rec (Some NaN) (Some ''n''),
                        Rec (Some (Num 5)) (Some ''b''), Rec (Some (Num 100)) (Some ''c'')],
            size_h = 4, count_h = 4\<rparr> \<and>
   \<not> heap_order \<lparr>storage = [Null, Rec (Some (Num 9)) (Some ''a''), Rec (Some NaN) (Some ''n''),
                        Rec (Some (Num 5)) (Some ''b''), Rec (Some (Num 100)) (Some ''c'')],
            size_h = 4, count_h = 4\<rparr>"
  by code_simp

text \<open>
  Claim C3 as amended: for every sequence of operations on an initially empty heap that
  never attempts an \<open>insert\<close> while \<open>count = capacity\<close> and inserts no priority NaN, after
  each operation the heap-order invariant holds. The state after the first \<open>k\<close> operations
  is the result of running \<open>take k ops\<close>; the sequences range over \<open>insert\<close> and
  \<open>removeMax\<close> (and over \<open>count\<close> and \<open>sort\<close> as well).
\<close>

theorem heap_order_invariant:
  assumes "never_full 0 c ops" and "NaN_free ops"
  shows "\<exists>h. run (MaxHeap_empty c) (take k ops) = Inr h \<and> heap_order h"
proof -
  have "never_full (count_h (MaxHeap_empty c)) (size_h (MaxHeap_empty c)) (take k ops)"
    using never_full_take[OF assms(1)] by (simp add: empty_wf)
  from run_ok[OF empty_wf(1) empty_wf(4) this NaN_free_take[OF assms(2)]] obtain h where
    "run (MaxHeap_empty c) (take k ops) = Inr h" "well_formed h" "heap_except {} h" by blast
  then show ?thesis using heap_order_wf by blast
qed

theorem heap_order_invariant_witness:
  "never_full 0 2 [Insert (Num 1) (Some ''a''), Insert (Num 2) (Some ''b''), RemoveMax,
                   Insert (Num 3) None] \<and>
   NaN_free [Insert (Num 1) (Some ''a''), Insert (Num 2) (Some ''b''), RemoveMax,
             Insert (Num 3) None] \<and>
   (\<exists>h. run (MaxHeap_empty 2)
          (take 3 [Insert (Num 1) (Some ''a''), Insert (Num 2) (Some ''b''), RemoveMax,
                   Insert (Num 3) None]) = Inr h \<and>
        heap_order h)"
  using heap_order_invariant[of 2 "[Insert (Num 1) (Some ''a''), Insert (Num 2) (Some ''b''),
    RemoveMax, Insert (Num 3) None]" 3]
  by simp

text \<open>
  Claim C4: after \<open>n \<le> capacity\<close> insertions of arbitrary (priority, element) pairs into
  an empty heap, the next \<open>n\<close> calls of \<open>removeMax\<close> return the inserted elements in
  non-increasing order of priority, and call \<open>n + 1\<close> returns the empty sentinel.

  This fails when a priority is NaN. After the insertions (9, a), (NaN, n), (5, b), (100, c)
  the four calls of \<open>removeMax\<close> return a, c, b, n: the element of priority 9 comes out
  before the element of priority 100. No list of the inserted pairs that is in descending
  order of priority has these elements in this order.
\<close>

theorem extract_order_fails_with_NaN:
  "length nan_scenario \<le> 4 \<and>
   insert_all (MaxHeap_empty 4) nan_scenario
     = Inr \<lparr>storage = [Null, Rec (Some (Num 9)) (Some ''a''), Rec (Some NaN) (Some ''n''),
                        Rec (Some (Num 5)) (Some ''b''), Rec (Some (Num 100)) (Some ''c'')],
            size_h = 4, count_h = 4\<rparr> \<and>
   drain 4 \<lparr>storage = [Null, Rec (Some (Num 9)) (Some ''a''), Rec (Some NaN) (Some ''n''),
                        Rec (Some (Num 5)) (Some ''b''), Rec (Some (Num 100)) (Some ''c'')],
            size_h = 4, count_h = 4\<rparr>
     = Inr ([Some ''a'', Some ''c'', Some ''b'', Some ''n''],
            \<lparr>storage = [Null, Null, Null, Null, Null], size_h = 4, count_h = 0\<rparr>) \<and>
   \<not> (\<exists>h qs h'. insert_all (MaxHeap_empty 4) nan_scenario = Inr h \<and>
         drain (length nan_scenario) h = Inr (map snd qs, h') \<and>
         mset qs = mset nan_scenario \<and>
         sorted_wrt (\<lambda>a b. num_le (fst b) (fst a)) qs)"
proof -
  let ?H = "\<lparr>storage = [Null, Rec (Some (Num 9)) (Some ''a''), Rec (Some NaN) (Some ''n''),
                        Rec (Some (Num 5)) (Some ''b''), Rec (Some (Num 100)) (Some ''c'')],
            size_h = 4, count_h = 4\<rparr>"
  let ?E = "\<lparr>storage = [Null, Null, Null, Null, Null], size_h = 4, count_h = 0\<rparr> :: string heap"
  have len: "length nan_scenario = 4" by (simp add: nan_scenario_def)
  have ins: "insert_all (MaxHeap_empty 4) nan_scenario = Inr ?H" by code_simp
  have dr: "drain 4 ?H = Inr ([Some ''a'', Some ''c'', Some ''b'', Some ''n''], ?E)"
    by code_simp
  have no: "\<not> (\<exists>h qs h'. insert_all (MaxHeap_empty 4) nan_scenario = Inr h \<and>
         drain (length nan_scenario) h = Inr (map snd qs, h') \<and>
         mset qs = mset nan_scenario \<and>
         sorted_wrt (\<lambda>a b. num_le (fst b) (fst a)) qs)"
  proof
    assume "\<exists>h qs h'. insert_all (MaxHeap_empty 4) nan_scenario = Inr h \<and>
         drain (length nan_scenario) h = Inr (map snd qs, h') \<and>
         mset qs = mset nan_scenario \<and>
         sorted_wrt (\<lambda>a b. num_le (fst b) (fst a)) qs"
    then obtain h qs h' where a: "insert_all (MaxHeap_empty 4) nan_scenario = Inr h"
      "drain (length nan_scenario) h = Inr (map snd qs, h')"
      and q: "mset qs = mset nan_scenario" "sorted_wrt (\<lambda>a b. num_le (fst b) (fst a)) qs"
      by blast
    from a ins dr len have m: "map snd qs = [Some ''a'', Some ''c'', Some ''b'', Some ''n'']"
      by simp
    from m obtain q1 q2 q3 q4 where qs: "qs = [q1, q2, q3, q4]"
      and s: "snd q1 = Some ''a''" "snd q2 = Some ''c''"
      by (auto simp: map_eq_Cons_conv)
    have "set qs = set nan_scenario" using q(1) by (metis set_mset_mset)
    then have "q1 \<in> set nan_scenario" "q2 \<in> set nan_scenario" using qs by auto
    with s have "q1 = (Num 9, Some ''a'')" "q2 = (Num 100, Some ''c'')"
      by (auto simp: nan_scenario_def)
    with q(2) qs show False by (simp add: num_le_def)
  qed
  from len ins dr no show ?thesis by simp
qed

text \<open>
  Claim C4 as amended: after \<open>n \<le> capacity\<close> insertions of (priority, element) pairs none
  of whose priorities is NaN, the next \<open>n\<close> calls of \<open>removeMax\<close> return the inserted
  elements in non-increasing order of priority, and call \<open>n + 1\<close> returns the empty sentinel.
  The returned elements are the second components of a list \<open>qs\<close> of pairs that is a
  permutation of the inserted pairs and is sorted by descending priority; equal priorities
  may come out in either order.
\<close>

theorem extract_order_after_inserts:
  assumes "length ps \<le> c" and "NaN \<notin> fst ` set ps"
  shows "\<exists>h qs h'. insert_all (MaxHeap_empty c) ps = Inr h \<and>
     drain (length ps) h = Inr (map snd qs, h') \<and>
     mset qs = mset ps \<and> sorted_wrt (\<lambda>a b. num_le (fst b) (fst a)) qs \<and>
     removeMax h' = Inr (None, h')"
proof -
  let ?ps = "map (\<lambda>r. (int_of (fst r), snd r)) ps"
  have again: "map num_pair ?ps = ps"
  proof -
    have "num_pair (int_of (fst r), snd r) = r" if "r \<in> set ps" for r
    proof (rule num_pair_int_of)
      show "fst r \<noteq> NaN" using that assms(2) by (metis imageI)
    qed
    then show ?thesis by (simp add: map_idI)
  qed
  have "length ?ps \<le> c" using assms(1) by simp
  from drain_inserted[OF this] again obtain h qs h' where
    r: "insert_all (MaxHeap_empty c) ps = Inr h" "drain (length ps) h = Inr (map snd qs, h')"
      "mset qs = mset ?ps" "sorted_wrt (\<lambda>a b. fst b \<le> fst a) qs"
      "removeMax h' = Inr (None, h')" by auto
  let ?qs = "map num_pair qs"
  have "map snd ?qs = map snd qs" by (simp add: num_pair_def)
  moreover have "mset ?qs = mset ps"
  proof -
    have "mset ?qs = image_mset num_pair (mset qs)" by (rule mset_map)
    also have "\<dots> = image_mset num_pair (mset ?ps)" by (simp only: r(3))
    also have "\<dots> = mset (map num_pair ?ps)" by (rule mset_map[symmetric])
    also have "\<dots> = mset ps" by (simp only: again)
    finally show ?thesis .
  qed
  moreover have "sorted_wrt (\<lambda>a b. num_le (fst b) (fst a)) ?qs"
    using r(4) by (simp add: sorted_wrt_map num_pair_def num_le_def)
  ultimately show ?thesis using r(1,2,5) by metis
qed

theorem extract_order_after_inserts_witness:
  "length scenario \<le> 4 \<and> NaN \<notin> fst ` set scenario \<and>
   (\<exists>h qs h'. insert_all (MaxHeap_empty 4) scenario = Inr h \<and>
     drain (length scenario) h = Inr (map snd qs, h') \<and>
     mset qs = mset scenario \<and>
     sorted_wrt (\<lambda>a b. num_le (fst b) (fst a)) qs \<and>
     removeMax h' = Inr (None, h'))"
proof -
  have len: "length scenario \<le> 4" by (simp add: scenario_def)
  have free: "NaN \<notin> fst ` set scenario" by (simp add: scenario_def)
  from extract_order_after_inserts[OF len free] len free show ?thesis by blast
qed

text \<open>
  Claim C5: an empty heap of capacity \<open>c\<close> accepts exactly \<open>c\<close> insertions; insertion
  \<open>c + 1\<close> fails with the capacity error, which is raised exactly when \<open>count = capacity\<close>;
  \<open>count()\<close> is \<open>c\<close> at that point; and no operation raises any other error. The last
  part is \<open>only_capacity_errors\<close>: whatever calls a client makes on a heap, the only
  exception is the capacity error of an \<open>insert\<close> on a full heap. It holds of an empty heap
  and of a heap constructed from any array of records, and \<open>heapsort\<close> of such an array
  raises nothing. The priorities are arbitrary numbers, NaN included.
\<close>

theorem capacity_exceeded_only_error:
  "(length ps = c \<longrightarrow>
      (\<exists>h. insert_all (MaxHeap_empty c) ps = Inr h \<and> count_of h = c \<and>
           insert_h h p e = Inl (HeapFull, h))) \<and>
   only_capacity_errors (MaxHeap_empty c :: 'e heap) \<and>
   (\<exists>h0. MaxHeap_fromArray (s0 # map mk_rec ps) = Inr h0 \<and> only_capacity_errors h0) \<and>
   (\<exists>st. heapsort (s0 # map mk_rec ps) = Inr st)"
proof (intro conjI impI)
  assume len: "length ps = c"
  have "count_h (MaxHeap_empty c) + length ps \<le> size_h (MaxHeap_empty c)"
    using len by (simp add: empty_wf)
  from insert_all_shaped[OF empty_shaped this] obtain h where
    h: "insert_all (MaxHeap_empty c) ps = Inr h" "count_h h = length ps" "size_h h = c"
    by (auto simp: empty_wf)
  have "\<not> count_h h < size_h h" using h len by simp
  from insert_full[OF this, of p e] h len
  show "\<exists>h. insert_all (MaxHeap_empty c) ps = Inr h \<and> count_of h = c \<and>
           insert_h h p e = Inl (HeapFull, h)"
    by (auto simp: count_of_def)
next
  show "only_capacity_errors (MaxHeap_empty c :: 'e heap)"
    by (rule shaped_only_capacity_errors) (rule empty_shaped)
next
  from fromArray_shaped[of s0 ps]
  show "\<exists>h0. MaxHeap_fromArray (s0 # map mk_rec ps) = Inr h0 \<and> only_capacity_errors h0"
    using shaped_only_capacity_errors by blast
next
  show "\<exists>st. heapsort (s0 # map mk_rec ps) = Inr st" by (rule heapsort_ok)
qed

theorem capacity_exceeded_only_error_witness:
  "length nan_scenario = 4 \<and>
   (\<exists>h. insert_all (MaxHeap_empty 4) nan_scenario = Inr h \<and> count_of h = 4 \<and>
        insert_h h (Num 7) (Some ''e'') = Inl (HeapFull, h)) \<and>
   only_capacity_errors (MaxHeap_empty 4 :: string heap) \<and>
   (\<exists>h0. MaxHeap_fromArray (Null # map mk_rec nan_scenario) = Inr h0 \<and>
         only_capacity_errors h0) \<and>
   (\<exists>st. heapsort (Null # map mk_rec nan_scenario) = Inr st)"
proof -
  have len: "length nan_scenario = 4" by (simp add: nan_scenario_def)
  from capacity_exceeded_only_error[of nan_scenario 4 "Num 7" "Some ''e''" Null] len
  show ?thesis by blast
qed

text \<open>
  Claim C6: in the sink-down of \<open>removeMax\<close> and \<open>sort\<close>, a node with a strictly greater
  in-range child is swapped with whichever child has the larger priority, the left child
  being chosen only when the right child's priority is not greater than the left child's;
  the descent stops when the node is not smaller than any in-range child.

  The code does not do this. \<open>_sink\<close> tests the left child first and swaps with it whenever
  it is strictly greater than the node. After the insertions of the priorities 4, 2, 3, 1
  the call of \<open>removeMax\<close> runs \<open>_sink(1)\<close> on the priorities 1, 2, 3: the root is swapped
  with its left child (priority 2) although the right child (priority 3) is greater; the
  loop then tests the root again and swaps it with the right child, which leaves 3, 1, 2
  where the claimed policy leaves 3, 2, 1 after one swap. On the seven priorities
  0, 3, 6, 1, 2, 4, 5 one call \<open>_sink(1)\<close> leaves 6, 2, 5, 0, 1, 3, 4: it has moved the
  record of every cell, in both subtrees of the root, where a descent towards the larger
  child follows one path (0 to the cells 3 and 7, leaving 6, 3, 5, 1, 2, 4, 0). The work of
  one call is then not bounded by the height of the tree, on which the \<open>n*log(n)\<close> that
  the comment of \<open>heapsort\<close> promises rests.
\<close>

theorem sink_takes_left_child_first:
  "removeMax \<lparr>storage = array_of [4, 2, 3, 1], size_h = 4, count_h = 4\<rparr>
     = Inr (Some 4, \<lparr>storage = array_of [3, 1, 2] @ [Null], size_h = 4, count_h = 3\<rparr>) \<and>
   sink_choice \<lparr>storage = array_of [1, 2, 3] @ [Null], size_h = 4, count_h = 3\<rparr> 1
     = Some (left 1) \<and>
   right 1 \<le> count_h \<lparr>storage = array_of [1, 2, 3] @ [Null], size_h = 4, count_h = 3\<rparr> \<and>
   key \<lparr>storage = array_of [1, 2, 3] @ [Null], size_h = 4, count_h = 3\<rparr> (left 1)
     < key \<lparr>storage = array_of [1, 2, 3] @ [Null], size_h = 4, count_h = 3\<rparr> (right 1) \<and>
   sink \<lparr>storage = array_of [1, 2, 3] @ [Null], size_h = 4, count_h = 3\<rparr> 1
     = Inr \<lparr>storage = array_of [3, 1, 2] @ [Null], size_h = 4, count_h = 3\<rparr> \<and>
   sink \<lparr>storage = array_of [0, 3, 6, 1, 2, 4, 5], size_h = 7, count_h = 7\<rparr> 1
     = Inr \<lparr>storage = array_of [6, 2, 5, 0, 1, 3, 4], size_h = 7, count_h = 7\<rparr>"
  by code_simp

text \<open>
  Claim C7: constructing a heap from an array and calling \<open>removeMax\<close> until the empty
  sentinel yields the same descending sequence of priorities as inserting the same records
  one by one into an empty heap of equal capacity and draining that.

  The code does not do this. Built from the priorities 2, 1, 3, 4 the heap is drained in the
  order 3, 4, 2, 1; after inserting the same four records one by one it is drained in the
  order 4, 3, 2, 1 (elements equal priorities here). The construction leaves no heap (C2).
\<close>

theorem fromArray_drain_differs_from_insert_drain:
  "MaxHeap_fromArray (array_of [2, 1, 3, 4])
     = Inr \<lparr>storage = array_of [3, 4, 2, 1], size_h = 4, count_h = 4\<rparr> \<and>
   drain 5 \<lparr>storage = array_of [3, 4, 2, 1], size_h = 4, count_h = 4\<rparr>
     = Inr ([Some 3, Some 4, Some 2, Some 1, None],
            \<lparr>storage = [Null, Null, Null, Null, Null], size_h = 4, count_h = 0\<rparr>) \<and>
   insert_all (MaxHeap_empty 4)
       [(Num 2, Some 2), (Num 1, Some 1), (Num 3, Some 3), (Num 4, Some 4)]
     = Inr \<lparr>storage = array_of [4, 3, 2, 1], size_h = 4, count_h = 4\<rparr> \<and>
   drain 5 \<lparr>storage = array_of [4, 3, 2, 1], size_h = 4, count_h = 4\<rparr>
     = Inr ([Some 4, Some 3, Some 2, Some 1, None],
            \<lparr>storage = [Null, Null, Null, Null, Null], size_h = 4, count_h = 0\<rparr>)"
  by code_simp

text \<open>
  Claim C8: float-up and sink-down terminate on every state with \<open>1 \<le> i\<close> and
  \<open>count \<le> capacity\<close>; float-up stops at the root or at the first ancestor whose priority
  is not strictly smaller than the moving record, sink-down when the node has no in-range
  child with strictly greater priority.

  Both recursions are well-founded at every argument (\<open>float_dom\<close>, \<open>sink_dom\<close>). On a
  heap whose cells \<open>1..count\<close> hold records, of whatever priorities, both return normally
  (\<open>_float\<close> is called on an index that holds a record, \<open>i \<le> count\<close>): when \<open>_float\<close>
  returns, index \<open>i\<close> is the root or its parent is not strictly smaller, and when \<open>_sink\<close>
  returns, neither child of \<open>i\<close> is in range with a strictly greater priority. On a
  well-formed heap, moreover, the record that was at \<open>i\<close> lies after \<open>_float\<close> at the index
  \<open>climb\<close> computes on the initial heap: the root, or the first index whose parent is not
  strictly smaller than that record.
\<close>

theorem restore_routines_terminate:
  assumes "shaped h" and "1 \<le> i"
  shows "float_dom (h, i) \<and> sink_dom (h, i) \<and>
     (i \<le> count_h h \<longrightarrow>
        (\<exists>h'. float h i = Inr h' \<and> shaped h' \<and>
           (parent i = 0 \<or> \<not> cell_less h' (parent i) i))) \<and>
     (\<exists>h'. sink h i = Inr h' \<and> shaped h' \<and>
        \<not> child_above h' i (left i) \<and> \<not> child_above h' i (right i)) \<and>
     (well_formed h \<longrightarrow>
        (i \<le> count_h h \<longrightarrow>
           (\<exists>h'. float h i = Inr h' \<and> well_formed h' \<and>
              (parent i = 0 \<or> \<not> key h' (parent i) < key h' i) \<and>
              get (storage h') (climb h (key h i) i) = get (storage h) i)) \<and>
        (\<exists>h'. sink h i = Inr h' \<and> well_formed h' \<and>
           \<not> child_greater h' i (left i) \<and> \<not> child_greater h' i (right i)))"
proof (intro conjI impI)
  show "float_dom (h, i)" using float_total by blast
  show "sink_dom (h, i)" using sink_total by blast
  from sink_shaped_ok[OF assms] obtain h1 where
    s: "sink h i = Inr h1" "shaped h1" "sink_pick h1 i = None" by blast
  then show "\<exists>h'. sink h i = Inr h' \<and> shaped h' \<and>
        \<not> child_above h' i (left i) \<and> \<not> child_above h' i (right i)"
    by (auto simp: sink_pick_def split: if_splits)
next
  assume ic: "i \<le> count_h h"
  from float_shaped_ok[OF assms ic]
  show "\<exists>h'. float h i = Inr h' \<and> shaped h' \<and>
           (parent i = 0 \<or> \<not> cell_less h' (parent i) i)"
    by (auto simp: float_goes_def)
next
  assume wf: "well_formed h" and ic: "i \<le> count_h h"
  from float_exit[OF wf assms(2) ic] obtain h' where
    f: "float h i = Inr h'" "well_formed h'" "\<not> float_moves h' i" by blast
  from float_final_position[OF wf assms(2) ic] f(1)
  have "get (storage h') (climb h (key h i) i) = get (storage h) i" by auto
  with f show "\<exists>h'. float h i = Inr h' \<and> well_formed h' \<and>
        (parent i = 0 \<or> \<not> key h' (parent i) < key h' i) \<and>
        get (storage h') (climb h (key h i) i) = get (storage h) i"
    by (auto simp: float_moves_def)
next
  assume wf: "well_formed h"
  from sink_exit[OF wf assms(2)] obtain h'' where
    s: "sink h i = Inr h''" "well_formed h''" "sink_choice h'' i = None" by blast
  then show "\<exists>h'. sink h i = Inr h' \<and> well_formed h' \<and>
        \<not> child_greater h' i (left i) \<and> \<not> child_greater h' i (right i)"
    by (auto simp: sink_choice_def split: if_splits)
qed

theorem restore_routines_terminate_witness:
  "shaped example_heap \<and> (1::nat) \<le> 2 \<and> 2 \<le> count_h example_heap \<and>
   well_formed example_heap \<and>
   float_dom (example_heap, 2) \<and> sink_dom (example_heap, 2) \<and>
     (\<exists>h'. float example_heap 2 = Inr h' \<and> shaped h' \<and>
        (parent 2 = 0 \<or> \<not> cell_less h' (parent 2) 2)) \<and>
     (\<exists>h'. sink example_heap 2 = Inr h' \<and> shaped h' \<and>
        \<not> child_above h' 2 (left 2) \<and> \<not> child_above h' 2 (right 2)) \<and>
     (\<exists>h'. float example_heap 2 = Inr h' \<and> well_formed h' \<and>
        (parent 2 = 0 \<or> \<not> key h' (parent 2) < key h' 2) \<and>
        get (storage h') (climb example_heap (key example_heap 2) 2)
          = get (storage example_heap) 2) \<and>
     (\<exists>h'. sink example_heap 2 = Inr h' \<and> well_formed h' \<and>
        \<not> child_greater h' 2 (left 2) \<and> \<not> child_greater h' 2 (right 2))"
proof -
  have wf: "well_formed example_heap" by code_simp
  have sh: "shaped example_heap" by (rule wf_shaped[OF wf])
  have c: "2 \<le> count_h example_heap" by (simp add: example_heap_def)
  from restore_routines_terminate[OF sh, of 2] wf sh c show ?thesis by simp
qed

text \<open>
  Claim C9: \<open>insert\<close> on a full heap raises the capacity error before it changes anything:
  the state the call leaves is the state it was given, counters and every cell included.
\<close>

theorem insert_full_atomic:
  assumes "count_h h = size_h h"
  shows "insert_h h p e = Inl (HeapFull, h)"
  using assms by (simp add: insert_h_def)

theorem insert_full_atomic_witness:
  "count_h \<lparr>storage = array_of [7], size_h = 1, count_h = 1\<rparr>
     = size_h \<lparr>storage = array_of [7], size_h = 1, count_h = 1\<rparr> \<and>
   insert_h \<lparr>storage = array_of [7], size_h = 1, count_h = 1\<rparr> (Num 3) (Some 3)
     = Inl (HeapFull, \<lparr>storage = array_of [7], size_h = 1, count_h = 1\<rparr>)"
  using insert_full_atomic[of "\<lparr>storage = array_of [7], size_h = 1, count_h = 1\<rparr>"
      "Num 3" "Some 3"]
  by simp

text \<open>
  Claim C10: \<open>removeMax\<close> on an empty heap returns \<open>undefined\<close>, and so does \<open>removeMax\<close>
  on a heap whose root record has the element \<open>undefined\<close>: after one insertion of such an
  element into an empty heap of capacity 1 the queue holds one record, and \<open>removeMax\<close>
  returns the same value as on the empty queue.
\<close>

theorem empty_sentinel_ambiguous:
  "removeMax (MaxHeap_empty c) = Inr (None, MaxHeap_empty c) \<and>
   (\<exists>h h'. insert_h (MaxHeap_empty 1) p None = Inr h \<and> count_of h = 1 \<and>
      removeMax h = Inr (None, h'))"
proof
  show "removeMax (MaxHeap_empty c) = Inr (None, MaxHeap_empty c)"
    by (rule removeMax_empty) (rule empty_wf)
  have "insert_h (MaxHeap_empty 1) p None
      = Inr \<lparr>storage = [Null, Rec (Some p) None], size_h = 1, count_h = 1\<rparr>"
    by (simp add: insert_h_def MaxHeap_empty_def put_def float.simps parent_def)
  moreover have "removeMax \<lparr>storage = [Null, Rec (Some p) None], size_h = 1, count_h = 1\<rparr>
      = Inr (None, \<lparr>storage = [Null, Null], size_h = 1, count_h = 0\<rparr>)"
    by (simp add: removeMax_def element_at_def get_def put_def)
  ultimately show "\<exists>h h'. insert_h (MaxHeap_empty 1) p None = Inr h \<and> count_of h = 1 \<and>
      removeMax h = Inr (None, h')"
    by (auto simp: count_of_def)
qed

end
